theory Spec2Isabelle
  imports Main "HOL-Library.Sublist" "HOL-Library.Monad_Syntax"
begin

section \<open>JavaScript strings\<close>

text \<open>
  A JavaScript string is a sequence of UTF-16 code units. It is modelled as a HOL
  \<^typ>\<open>string\<close>, one \<^typ>\<open>char\<close> per code unit, which covers the texts whose code
  units are below 256 (ASCII and Latin-1). Offsets and lengths count code units, as
  \<^verbatim>\<open>String.prototype.length\<close>, \<^verbatim>\<open>substring\<close> and \<^verbatim>\<open>RegExp\<close> indices do.
\<close>

definition toLowerCaseChar :: "char \<Rightarrow> char" where
  "toLowerCaseChar c =
     (let n = (of_char c :: nat)
      in if (65 \<le> n \<and> n \<le> 90) \<or> (192 \<le> n \<and> n \<le> 222 \<and> n \<noteq> 215)
         then char_of (n + 32) else c)"

definition toLowerCase :: "string \<Rightarrow> string" where
  "toLowerCase s = map toLowerCaseChar s"

definition isWhiteSpace :: "char \<Rightarrow> bool" where
  "isWhiteSpace c = ((of_char c :: nat) \<in> {9, 10, 11, 12, 13, 32, 160})"

definition trim :: "string \<Rightarrow> string" where
  "trim s = rev (dropWhile isWhiteSpace (rev (dropWhile isWhiteSpace s)))"

text \<open>\<^verbatim>\<open>s.substring(a, b)\<close>: both indices are clamped to the length and swapped when
  out of order; \<^verbatim>\<open>s.substring(a)\<close> runs to the end.\<close>

definition substring :: "string \<Rightarrow> nat \<Rightarrow> nat \<Rightarrow> string" where
  "substring s a b =
     (let a' = min a (length s); b' = min b (length s)
      in take (max a' b' - min a' b') (drop (min a' b') s))"

definition substringFrom :: "string \<Rightarrow> nat \<Rightarrow> string" where
  "substringFrom s a = drop a s"

text \<open>\<^verbatim>\<open>s.replace(/c/g, r)\<close> for a pattern that is one literal character.\<close>

definition replaceChar :: "char \<Rightarrow> string \<Rightarrow> string \<Rightarrow> string" where
  "replaceChar c r s = concat (map (\<lambda>x. if x = c then r else [x]) s)"

section \<open>TensionHighlighter.tsx: escaping\<close>

definition escapeHtml :: "string \<Rightarrow> string" where
  "escapeHtml s =
     replaceChar (CHR ''>'') ''&gt;''
       (replaceChar (CHR ''<'') ''&lt;''
         (replaceChar (CHR ''&'') ''&amp;'' s))"

definition replaceNewlines :: "string \<Rightarrow> string" where
  "replaceNewlines s = replaceChar (CHR 0x0A) ''<br>'' s"

section \<open>Highlights and their resolution\<close>

record highlight =
  h_text :: string
  h_start :: nat
  h_end :: nat
  h_type :: string
  h_class :: string

text \<open>\<^verbatim>\<open>Array.prototype.sort(cmp)\<close> is stable: elements that compare equal keep their
  order. Insertion from the right puts an element before the first one it does not
  exceed, hence before the equal elements that came after it in the input.\<close>

fun insort_cmp :: "('a \<Rightarrow> 'a \<Rightarrow> int) \<Rightarrow> 'a \<Rightarrow> 'a list \<Rightarrow> 'a list" where
  "insort_cmp cmp x [] = [x]"
| "insort_cmp cmp x (y # ys) =
     (if cmp x y \<le> 0 then x # y # ys else y # insort_cmp cmp x ys)"

definition sort_cmp :: "('a \<Rightarrow> 'a \<Rightarrow> int) \<Rightarrow> 'a list \<Rightarrow> 'a list" where
  "sort_cmp cmp xs = foldr (insort_cmp cmp) xs []"

text \<open>Line 103: \<^verbatim>\<open>highlights.sort((a, b) => a.start - b.start)\<close>.\<close>

definition byStartAscending :: "highlight \<Rightarrow> highlight \<Rightarrow> int" where
  "byStartAscending a b = int (h_start a) - int (h_start b)"

text \<open>Line 118: \<^verbatim>\<open>filteredHighlights.sort((a, b) => b.start - a.start)\<close>.\<close>

definition byStartDescending :: "highlight \<Rightarrow> highlight \<Rightarrow> int" where
  "byStartDescending a b = int (h_start b) - int (h_start a)"

text \<open>Lines 108-111: the \<^verbatim>\<open>some\<close> test of a candidate against the spans kept so far.\<close>

definition isOverlapping :: "highlight list \<Rightarrow> highlight \<Rightarrow> bool" where
  "isOverlapping filteredHighlights highlight =
     list_ex (\<lambda>existing.
        (h_start highlight \<ge> h_start existing \<and> h_start highlight < h_end existing) \<or>
        (h_end highlight > h_start existing \<and> h_end highlight \<le> h_end existing))
       filteredHighlights"

text \<open>Lines 106-115: the loop over the sorted highlights; the first argument is
  \<^verbatim>\<open>filteredHighlights\<close> as built so far.\<close>

fun removeOverlaps :: "highlight list \<Rightarrow> highlight list \<Rightarrow> highlight list" where
  "removeOverlaps filteredHighlights [] = filteredHighlights"
| "removeOverlaps filteredHighlights (highlight # rest) =
     removeOverlaps
       (if \<not> isOverlapping filteredHighlights highlight
        then filteredHighlights @ [highlight] else filteredHighlights)
       rest"

text \<open>Lines 122-125: one splice into \<^verbatim>\<open>processedText\<close>.\<close>

definition spanMarkup :: "highlight \<Rightarrow> string" where
  \<open>spanMarkup highlight =
     ''<span class="'' @ h_class highlight @ ''">'' @ h_text highlight @ ''</span>''\<close>

definition applyHighlight :: "string \<Rightarrow> highlight \<Rightarrow> string" where
  "applyHighlight processedText highlight =
     substring processedText 0 (h_start highlight) @ spanMarkup highlight
       @ substringFrom processedText (h_end highlight)"

text \<open>Lines 103-128: sort, filter, sort in reverse, splice from the end, break lines.\<close>

definition filteredOf :: "highlight list \<Rightarrow> highlight list" where
  "filteredOf highlights =
     sort_cmp byStartDescending (removeOverlaps [] (sort_cmp byStartAscending highlights))"

definition renderHighlights :: "string \<Rightarrow> highlight list \<Rightarrow> string" where
  "renderHighlights processedText highlights =
     replaceNewlines (foldl applyHighlight processedText (filteredOf highlights))"

section \<open>Regular expressions with the global flag\<close>

text \<open>
  The regular-expression engine is not part of the repository. A compiled pattern is
  its matcher, as in the language definition: \<open>m s i\<close> is \<open>Some e\<close> when the pattern
  matches \<open>s\<close> at index \<open>i\<close> and the match ends at index \<open>e\<close>, and \<open>None\<close> when it
  does not match there. A \<^verbatim>\<open>RegExp\<close> object carries its matcher and the mutable
  \<^verbatim>\<open>lastIndex\<close>.
\<close>

type_synonym matcher = "string \<Rightarrow> nat \<Rightarrow> nat option"

record regexp =
  re_matcher :: matcher
  lastIndex :: nat

record regmatch =
  m_index :: nat
  m_text :: string

text \<open>The search of \<^verbatim>\<open>exec\<close>: try the matcher at \<open>i\<close>, \<open>i + 1\<close>, ... and give up
  past the end of the string.\<close>

function scanFrom :: "matcher \<Rightarrow> string \<Rightarrow> nat \<Rightarrow> (nat \<times> nat) option" where
  "scanFrom m s i =
     (if length s < i then None
      else (case m s i of Some e \<Rightarrow> Some (i, e) | None \<Rightarrow> scanFrom m s (Suc i)))"
  by pat_completeness auto
termination
  by (relation "measure (\<lambda>(m, s, i). Suc (length s) - i)") auto

text \<open>\<^verbatim>\<open>pattern.exec(s)\<close> on a global pattern: the search starts at \<^verbatim>\<open>lastIndex\<close>; a
  match moves \<^verbatim>\<open>lastIndex\<close> to its end, a failure resets it to 0 and returns
  \<^verbatim>\<open>null\<close>.\<close>

definition exec :: "regexp \<Rightarrow> string \<Rightarrow> regmatch option \<times> regexp" where
  "exec pattern s =
     (case scanFrom (re_matcher pattern) s (lastIndex pattern) of
        None \<Rightarrow> (None, pattern\<lparr>lastIndex := 0\<rparr>)
      | Some (i, e) \<Rightarrow>
          (Some \<lparr>m_index = i, m_text = substring s i e\<rparr>, pattern\<lparr>lastIndex := e\<rparr>))"

text \<open>\<^verbatim>\<open>while ((match = pattern.exec(s)) !== null) { ... push ... }\<close>: the matches in
  the order found, and the pattern as the loop leaves it. The loop does not end when
  \<^verbatim>\<open>lastIndex\<close> stops advancing; then the value is \<open>None\<close>.\<close>

partial_function (option) execLoop ::
  "regexp \<Rightarrow> string \<Rightarrow> regmatch list \<Rightarrow> (regmatch list \<times> regexp) option" where
  "execLoop pattern s found =
     (case exec pattern s of
        (None, pattern') \<Rightarrow> Some (found, pattern')
      | (Some m, pattern') \<Rightarrow> execLoop pattern' s (found @ [m]))"

section \<open>TensionHighlighter.tsx: the tension detector\<close>

record phrase_match =
  p_text :: string
  p_start :: nat
  p_end :: nat
  p_type :: string

definition tensionMatch :: "regmatch \<Rightarrow> phrase_match" where
  "tensionMatch m =
     \<lparr>p_text = m_text m, p_start = m_index m, p_end = m_index m + length (m_text m),
      p_type = ''tension''\<rparr>"

text \<open>Modelled from the spec: the module \<^verbatim>\<open>tensionPatterns\<close> is not among the sources.
  Its \<^verbatim>\<open>TENSION_PATTERNS\<close> is a parameter: an ordered list of regular expressions,
  each applied repeatedly across the full text (global search).

  Lines 27-37: \<^verbatim>\<open>TENSION_PATTERNS.forEach\<close>. The patterns are objects of that module,
  shared by all calls, so the loop returns them as it leaves them, next to the
  matches.\<close>

fun tensionLoop ::
  "regexp list \<Rightarrow> string \<Rightarrow> phrase_match list \<Rightarrow> (phrase_match list \<times> regexp list) option" where
  "tensionLoop [] s matches = Some (matches, [])"
| "tensionLoop (pattern # rest) s matches =
     do {
       (found, pattern') \<leftarrow> execLoop pattern s [];
       (matches', rest') \<leftarrow> tensionLoop rest s (matches @ map tensionMatch found);
       Some (matches', pattern' # rest')
     }"

definition findTensionPhrases ::
  "regexp list \<Rightarrow> string \<Rightarrow> (phrase_match list \<times> regexp list) option" where
  "findTensionPhrases TENSION_PATTERNS s = tensionLoop TENSION_PATTERNS s []"

section \<open>nlpAnalysis: the detectors on tokens\<close>

text \<open>
  The tokenizer is an external capability: \<^verbatim>\<open>nlp.readDoc(text)\<close> gives the tokens
  (\<^verbatim>\<open>out()\<close>, lemma, part-of-speech tag, offset) and the sentences (\<^verbatim>\<open>out()\<close>,
  offset) of the text, or throws. Every call into it sits inside the detector's
  \<^verbatim>\<open>try\<close> block, whose handler discards what was collected and returns the empty
  list, so one failure value for the whole reading stands for a throw at any of them.
\<close>

datatype error = Thrown

record token =
  t_out :: string
  t_lemma :: string
  t_pos :: string
  t_offset :: nat

record sentence =
  s_out :: string
  s_offset :: nat

record document =
  tokens :: "token list"
  sentences :: "sentence list"

type_synonym nlp = "string \<Rightarrow> error + document"

text \<open>The regular-expression literals of the detectors are compiled by the engine,
  with the flags \<^verbatim>\<open>gi\<close>; each evaluation of a literal is a fresh object with
  \<^verbatim>\<open>lastIndex\<close> 0.\<close>

type_synonym engine = "string \<Rightarrow> matcher"

record detection =
  d_text :: string
  d_start :: nat
  d_type :: string

definition startsWith :: "string \<Rightarrow> string \<Rightarrow> bool" where
  "startsWith s p = prefix p s"

definition backslash :: string where
  "backslash = [CHR 0x5C]"

definition absoluteWords :: "string list" where
  "absoluteWords =
     [''never'', ''always'', ''forever'', ''eternal'', ''infinite'', ''absolute'',
      ''complete'', ''total'', ''entire'', ''whole'', ''all'', ''every'', ''none'',
      ''nothing'', ''everything'', ''everyone'', ''nobody'', ''anywhere'',
      ''everywhere'', ''nowhere'', ''perfect'', ''impossible'', ''ultimate'']"

definition intensifiers :: "string list" where
  "intensifiers =
     [''extremely'', ''incredibly'', ''unbelievably'', ''remarkably'',
      ''exceptionally'', ''extraordinarily'', ''tremendously'', ''vastly'']"

text \<open>Lines 37-77 of the detector: what one token pushes, in order.\<close>

definition absolutismsOfToken :: "token \<Rightarrow> detection list" where
  "absolutismsOfToken token =
     (let pos = t_pos token;
          lem = toLowerCase (t_lemma token);
          word = toLowerCase (t_out token)
      in (if pos = ''JJS'' \<or> pos = ''RBS''
          then [\<lparr>d_text = t_out token, d_start = t_offset token, d_type = ''superlative''\<rparr>]
          else [])
       @ (if lem \<in> set absoluteWords \<or> word \<in> set absoluteWords
          then [\<lparr>d_text = t_out token, d_start = t_offset token, d_type = ''absolute_word''\<rparr>]
          else [])
       @ (if lem \<in> set intensifiers
          then [\<lparr>d_text = t_out token, d_start = t_offset token, d_type = ''intensifier''\<rparr>]
          else []))"

definition absolutePatterns :: "string list" where
  "absolutePatterns =
     [backslash @ ''b(?:far|much|way)'' @ backslash
        @ ''s+(?:more|less|better|worse|bigger|smaller)'' @ backslash @ ''b'',
      backslash @ ''b(?:the'' @ backslash @ ''s+)?most'' @ backslash @ ''s+''
        @ backslash @ ''w+'',
      backslash @ ''b(?:the'' @ backslash @ ''s+)?least'' @ backslash @ ''s+''
        @ backslash @ ''w+'',
      backslash @ ''bof'' @ backslash @ ''s+all'' @ backslash @ ''s+time'' @ backslash @ ''b'',
      backslash @ ''bin'' @ backslash @ ''s+history'' @ backslash @ ''b'',
      backslash @ ''bever'' @ backslash @ ''s+(?:seen|heard|known|told|made)''
        @ backslash @ ''b'']"

definition phraseAt :: "sentence \<Rightarrow> regmatch \<Rightarrow> detection" where
  "phraseAt sen m =
     \<lparr>d_text = m_text m, d_start = s_offset sen + m_index m, d_type = ''phrase''\<rparr>"

text \<open>\<^verbatim>\<open>patterns.forEach\<close> inside \<^verbatim>\<open>sentences.each\<close>: every pattern is run over the
  sentence's text, and each match is pushed with the sentence's offset added.\<close>

fun patternsLoop ::
  "engine \<Rightarrow> string list \<Rightarrow> sentence \<Rightarrow> detection list \<Rightarrow> detection list option" where
  "patternsLoop eng [] sen out = Some out"
| "patternsLoop eng (p # ps) sen out =
     do {
       (found, _) \<leftarrow> execLoop \<lparr>re_matcher = eng p, lastIndex = 0\<rparr> (s_out sen) [];
       patternsLoop eng ps sen (out @ map (phraseAt sen) found)
     }"

fun sentencesLoop ::
  "engine \<Rightarrow> string list \<Rightarrow> sentence list \<Rightarrow> detection list \<Rightarrow> detection list option" where
  "sentencesLoop eng ps [] out = Some out"
| "sentencesLoop eng ps (sen # rest) out =
     do {
       out' \<leftarrow> patternsLoop eng ps sen out;
       sentencesLoop eng ps rest out'
     }"

definition detectAbsolutismsNLP ::
  "engine \<Rightarrow> nlp option \<Rightarrow> string \<Rightarrow> detection list option" where
  "detectAbsolutismsNLP eng nlp s =
     (case nlp of
        None \<Rightarrow> Some []
      | Some readDoc \<Rightarrow>
          (case readDoc s of
             Inl e \<Rightarrow> Some []
           | Inr doc \<Rightarrow>
               sentencesLoop eng absolutePatterns (sentences doc)
                 (concat (map absolutismsOfToken (tokens doc)))))"

definition negativeContractions :: "string list" where
  "negativeContractions =
     [''don't'', ''doesn't'', ''didn't'', ''won't'', ''wouldn't'', ''shouldn't'',
      ''couldn't'', ''can't'', ''isn't'', ''aren't'', ''wasn't'', ''weren't'',
      ''haven't'', ''hasn't'', ''hadn't'', ''mustn't'', ''needn't'', ''shan't'']"

definition inversionsOfToken :: "token \<Rightarrow> detection list" where
  "inversionsOfToken token =
     (let word = toLowerCase (t_out token);
          lem = toLowerCase (t_lemma token);
          pos = t_pos token
      in (if word \<in> set negativeContractions
          then [\<lparr>d_text = t_out token, d_start = t_offset token, d_type = ''contraction''\<rparr>]
          else [])
       @ (if lem = ''not'' \<or> word = ''no'' \<or> lem = ''never''
          then [\<lparr>d_text = t_out token, d_start = t_offset token, d_type = ''negation''\<rparr>]
          else [])
       @ (if (startsWith pos ''JJ'' \<or> startsWith pos ''VB'') \<and>
             (startsWith word ''un'' \<or> startsWith word ''dis'' \<or>
              startsWith word ''in'' \<or> startsWith word ''im'' \<or>
              startsWith word ''non'' \<or> startsWith word ''anti'')
          then [\<lparr>d_text = t_out token, d_start = t_offset token,
                 d_type = ''negative_prefix''\<rparr>]
          else []))"

definition inversionPatterns :: "string list" where
  "inversionPatterns =
     [backslash @ ''bnotice what (?:he|she|they|we|you|i) didn't say'' @ backslash @ ''b'',
      backslash @ ''b(?:not|never) (?:a|an|the)?'' @ backslash @ ''s*(?:single|one)''
        @ backslash @ ''b'',
      backslash @ ''bfar from (?:being|the|a)'' @ backslash @ ''b'',
      backslash @ ''banything but'' @ backslash @ ''b'',
      backslash @ ''bcontrary to'' @ backslash @ ''b'',
      backslash @ ''bopposite of'' @ backslash @ ''b'']"

definition detectInversionsNLP ::
  "engine \<Rightarrow> nlp option \<Rightarrow> string \<Rightarrow> detection list option" where
  "detectInversionsNLP eng nlp s =
     (case nlp of
        None \<Rightarrow> Some []
      | Some readDoc \<Rightarrow>
          (case readDoc s of
             Inl e \<Rightarrow> Some []
           | Inr doc \<Rightarrow>
               sentencesLoop eng inversionPatterns (sentences doc)
                 (concat (map inversionsOfToken (tokens doc)))))"

section \<open>TensionHighlighter.tsx: analyzeText\<close>

record counts =
  total :: nat
  tension :: nat
  absolutism :: nat
  inversion :: nat

text \<open>What a call leaves in the component's state: \<^verbatim>\<open>setHighlightedText\<close> and
  \<^verbatim>\<open>setStats\<close>.\<close>

record analysisResult =
  highlightedText :: string
  stats :: counts

text \<open>The local variables of lines 54-59.\<close>

record locals =
  highlights :: "highlight list"
  allMatches :: "string set"
  tensionCount :: nat
  absolutismCount :: nat
  inversionCount :: nat

definition initialLocals :: locals where
  "initialLocals =
     \<lparr>highlights = [], allMatches = {}, tensionCount = 0, absolutismCount = 0,
      inversionCount = 0\<rparr>"

text \<open>Lines 63-70, 75-85 and 89-99: the bodies of the three \<^verbatim>\<open>forEach\<close> loops.\<close>

definition tensionHighlight :: "phrase_match \<Rightarrow> highlight" where
  "tensionHighlight m =
     \<lparr>h_text = p_text m, h_start = p_start m, h_end = p_end m, h_type = p_type m,
      h_class = ''highlight-tension''\<rparr>"

definition absolutismHighlight :: "detection \<Rightarrow> highlight" where
  "absolutismHighlight ab =
     \<lparr>h_text = d_text ab, h_start = d_start ab, h_end = d_start ab + length (d_text ab),
      h_type = ''absolutism'', h_class = ''highlight-absolutism''\<rparr>"

definition inversionHighlight :: "detection \<Rightarrow> highlight" where
  "inversionHighlight iv =
     \<lparr>h_text = d_text iv, h_start = d_start iv, h_end = d_start iv + length (d_text iv),
      h_type = ''inversion'', h_class = ''highlight-inversion''\<rparr>"

definition addTension :: "locals \<Rightarrow> phrase_match \<Rightarrow> locals" where
  "addTension v m =
     v\<lparr>highlights := highlights v @ [tensionHighlight m],
       allMatches := insert (toLowerCase (p_text m)) (allMatches v),
       tensionCount := tensionCount v + 1\<rparr>"

definition addAbsolutism :: "locals \<Rightarrow> detection \<Rightarrow> locals" where
  "addAbsolutism v ab =
     v\<lparr>highlights := highlights v @ [absolutismHighlight ab],
       allMatches := insert (toLowerCase (d_text ab)) (allMatches v),
       absolutismCount := absolutismCount v + 1\<rparr>"

definition addInversion :: "locals \<Rightarrow> detection \<Rightarrow> locals" where
  "addInversion v iv =
     v\<lparr>highlights := highlights v @ [inversionHighlight iv],
       allMatches := insert (toLowerCase (d_text iv)) (allMatches v),
       inversionCount := inversionCount v + 1\<rparr>"

definition pleaseEnterText :: analysisResult where
  \<open>pleaseEnterText =
     \<lparr>highlightedText = ''<p class="text-gray-500">Please enter some text to analyze.</p>'',
      stats = \<lparr>total = 0, tension = 0, absolutism = 0, inversion = 0\<rparr>\<rparr>\<close>

definition analysisFailed :: analysisResult where
  \<open>analysisFailed =
     \<lparr>highlightedText = ''<p class="text-red-500">Analysis failed. Please try again.</p>'',
      stats = \<lparr>total = 0, tension = 0, absolutism = 0, inversion = 0\<rparr>\<rparr>\<close>

text \<open>Lines 62-100: detection. The value is \<open>None\<close> when a matching loop does not end.
  Nothing here throws: \<^verbatim>\<open>exec\<close>, the array and the string operations are total, and
  the two detectors return \<open>[]\<close> from their own handlers.\<close>

definition detectAll ::
  "engine \<Rightarrow> regexp list \<Rightarrow> bool \<Rightarrow> nlp option \<Rightarrow> string \<Rightarrow> (locals \<times> regexp list) option" where
  "detectAll eng TENSION_PATTERNS isNlpLoaded nlp inputText =
     do {
       (tensionMatches, patterns') \<leftarrow> findTensionPhrases TENSION_PATTERNS inputText;
       let v1 = foldl addTension initialLocals tensionMatches;
       if isNlpLoaded \<and> nlp \<noteq> None then
         do {
           absolutisms \<leftarrow> detectAbsolutismsNLP eng nlp inputText;
           let v2 = foldl addAbsolutism v1 absolutisms;
           inversions \<leftarrow> detectInversionsNLP eng nlp inputText;
           Some (foldl addInversion v2 inversions, patterns')
         }
       else Some (v1, patterns')
     }"

text \<open>Lines 53 and 103-134: the result built from the locals.\<close>

definition resultOf :: "string \<Rightarrow> locals \<Rightarrow> analysisResult" where
  "resultOf inputText v =
     \<lparr>highlightedText = renderHighlights (escapeHtml inputText) (highlights v),
      stats = \<lparr>total = card (allMatches v), tension = tensionCount v,
               absolutism = absolutismCount v, inversion = inversionCount v\<rparr>\<rparr>"

text \<open>Lines 50-134, the \<^verbatim>\<open>try\<close> block: its outcome is a failure (\<open>Inl\<close>) or the result
  it has set (\<open>Inr\<close>); either way the second component is \<^verbatim>\<open>TENSION_PATTERNS\<close> as the
  block leaves it. The steps of the block are total and the detectors handle what the
  tokenizer throws, so the block as written here ends in \<open>Inr\<close>.\<close>

definition tryBody ::
  "engine \<Rightarrow> regexp list \<Rightarrow> bool \<Rightarrow> nlp option \<Rightarrow> string
     \<Rightarrow> (error \<times> regexp list + analysisResult \<times> regexp list) option" where
  "tryBody eng TENSION_PATTERNS isNlpLoaded nlp inputText =
     do {
       (v, patterns') \<leftarrow> detectAll eng TENSION_PATTERNS isNlpLoaded nlp inputText;
       Some (Inr (resultOf inputText v, patterns'))
     }"

text \<open>Lines 136-139, the \<^verbatim>\<open>catch\<close> clause: whatever failure ends the block, the call
  sets the failure placeholder and its zero counts; a block that ends normally keeps
  what it has set.\<close>

definition tryCatch ::
  "error \<times> regexp list + analysisResult \<times> regexp list \<Rightarrow> analysisResult \<times> regexp list" where
  "tryCatch outcome =
     (case outcome of
        Inl (e, patterns') \<Rightarrow> (analysisFailed, patterns')
      | Inr r \<Rightarrow> r)"

text \<open>Lines 41-143.\<close>

definition analyzeText ::
  "engine \<Rightarrow> regexp list \<Rightarrow> bool \<Rightarrow> nlp option \<Rightarrow> string
     \<Rightarrow> (analysisResult \<times> regexp list) option" where
  "analyzeText eng TENSION_PATTERNS isNlpLoaded nlp inputText =
     (if trim inputText = [] then Some (pleaseEnterText, TENSION_PATTERNS)
      else
        (case tryBody eng TENSION_PATTERNS isNlpLoaded nlp inputText of
           None \<Rightarrow> None
         | Some outcome \<Rightarrow> Some (tryCatch outcome)))"

section \<open>Notions used to state the properties\<close>

text \<open>The overlap of a candidate with a kept span, in the words of the spec:
  \<^verbatim>\<open>kept.start <= candidate.start < kept.end\<close> or
  \<^verbatim>\<open>kept.start < candidate.end <= kept.end\<close>.\<close>

definition overlapsSpec :: "highlight \<Rightarrow> highlight \<Rightarrow> bool" where
  "overlapsSpec kept candidate =
     ((h_start kept \<le> h_start candidate \<and> h_start candidate < h_end kept) \<or>
      (h_start kept < h_end candidate \<and> h_end candidate \<le> h_end kept))"

text \<open>Two spans that do not overlap, in the words of the spec:
  \<^verbatim>\<open>A.end <= B.start OR B.end <= A.start\<close>.\<close>

definition apart :: "highlight \<Rightarrow> highlight \<Rightarrow> bool" where
  "apart a b = (h_end a \<le> h_start b \<or> h_end b \<le> h_start a)"

text \<open>A pattern that never matches the empty string: every match ends after the index
  where it starts.\<close>

definition advancing :: "matcher \<Rightarrow> bool" where
  "advancing m = (\<forall>s i e. m s i = Some e \<longrightarrow> i < e)"

text \<open>The tokenizer's lemma is the dictionary base form of the word, and the base form
  of \<^verbatim>\<open>never\<close> is \<^verbatim>\<open>never\<close>: in a document that the tokenizer returns, a token whose
  lowercase form is \<^verbatim>\<open>never\<close> has the lowercase lemma \<^verbatim>\<open>never\<close>.\<close>

definition neverIsItsLemma :: "document \<Rightarrow> bool" where
  "neverIsItsLemma doc =
     list_all (\<lambda>tok. toLowerCase (t_out tok) = ''never'' \<longrightarrow>
                      toLowerCase (t_lemma tok) = ''never'')
       (tokens doc)"

text \<open>The span invariant of the data model: \<^verbatim>\<open>0 <= start < end <= length(text)\<close>.\<close>

definition withinText :: "string \<Rightarrow> highlight \<Rightarrow> bool" where
  "withinText s h = (h_start h < h_end h \<and> h_end h \<le> length s)"

text \<open>The annotated rendering in the words of the spec, over the kept spans in
  ascending order: each kept span is wrapped around exactly its matched text, and the
  text outside the kept spans is the original one, passed through \<open>f\<close> (the escaping,
  or nothing).\<close>

fun annotateFrom :: "(string \<Rightarrow> string) \<Rightarrow> string \<Rightarrow> nat \<Rightarrow> highlight list \<Rightarrow> string" where
  "annotateFrom f s pos [] = f (substringFrom s pos)"
| "annotateFrom f s pos (k # ks) =
     f (substring s pos (h_start k)) @ spanMarkup k @ annotateFrom f s (h_end k) ks"

definition specRendering :: "string \<Rightarrow> highlight list \<Rightarrow> string" where
  "specRendering s hs =
     replaceNewlines
       (annotateFrom escapeHtml s 0 (removeOverlaps [] (sort_cmp byStartAscending hs)))"

text \<open>Markup without a raw \<^verbatim>\<open><\<close>, \<^verbatim>\<open>>\<close> or \<^verbatim>\<open>&\<close>: neither bracket occurs, and every
  ampersand opens one of the three entities that \<^verbatim>\<open>escapeHtml\<close> writes.\<close>

fun noRawMarkup :: "string \<Rightarrow> bool" where
  "noRawMarkup [] = True"
| "noRawMarkup (c # cs) =
     (c \<noteq> CHR ''<'' \<and> c \<noteq> CHR ''>'' \<and>
      (c = CHR ''&'' \<longrightarrow> prefix ''amp;'' cs \<or> prefix ''lt;'' cs \<or> prefix ''gt;'' cs) \<and>
      noRawMarkup cs)"

section \<open>Example inputs\<close>

text \<open>A pattern that is a plain word: it matches where the word stands in the text.\<close>

definition literal :: "string \<Rightarrow> matcher" where
  "literal w s i =
     (if w \<noteq> [] \<and> take (length w) (drop i s) = w then Some (i + length w) else None)"

text \<open>A pattern that matches the empty string at every index.\<close>

definition emptyMatch :: matcher where
  "emptyMatch s i = Some i"

definition literalEngine :: engine where
  "literalEngine p = literal p"

definition word :: "string \<Rightarrow> regexp" where
  "word w = \<lparr>re_matcher = literal w, lastIndex = 0\<rparr>"

text \<open>Tokenizers for the texts \<^verbatim>\<open>He never lies\<close> and \<^verbatim>\<open>Tom & Ann never lie\<close>, and
  one that throws.\<close>

definition heNever :: string where
  "heNever = ''He never lies''"

definition heNeverDoc :: document where
  "heNeverDoc =
     \<lparr>tokens =
        [\<lparr>t_out = ''He'', t_lemma = ''he'', t_pos = ''PRP'', t_offset = 0\<rparr>,
         \<lparr>t_out = ''never'', t_lemma = ''never'', t_pos = ''RB'', t_offset = 3\<rparr>,
         \<lparr>t_out = ''lies'', t_lemma = ''lie'', t_pos = ''VBZ'', t_offset = 9\<rparr>],
      sentences = [\<lparr>s_out = ''He never lies'', s_offset = 0\<rparr>]\<rparr>"

definition readHeNever :: nlp where
  "readHeNever s = Inr heNeverDoc"

definition tomAnn :: string where
  "tomAnn = ''Tom & Ann never lie''"

definition tomAnnDoc :: document where
  "tomAnnDoc =
     \<lparr>tokens =
        [\<lparr>t_out = ''Tom'', t_lemma = ''tom'', t_pos = ''NNP'', t_offset = 0\<rparr>,
         \<lparr>t_out = ''&'', t_lemma = ''&'', t_pos = ''CC'', t_offset = 4\<rparr>,
         \<lparr>t_out = ''Ann'', t_lemma = ''ann'', t_pos = ''NNP'', t_offset = 6\<rparr>,
         \<lparr>t_out = ''never'', t_lemma = ''never'', t_pos = ''RB'', t_offset = 10\<rparr>,
         \<lparr>t_out = ''lie'', t_lemma = ''lie'', t_pos = ''VBP'', t_offset = 16\<rparr>],
      sentences = [\<lparr>s_out = ''Tom & Ann never lie'', s_offset = 0\<rparr>]\<rparr>"

definition readTomAnn :: nlp where
  "readTomAnn s = Inr tomAnnDoc"

definition readThrows :: nlp where
  "readThrows s = Inl Thrown"

definition neverAbsolutism :: highlight where
  "neverAbsolutism =
     \<lparr>h_text = ''never'', h_start = 10, h_end = 15, h_type = ''absolutism'',
      h_class = ''highlight-absolutism''\<rparr>"

definition neverInversion :: highlight where
  "neverInversion =
     \<lparr>h_text = ''never'', h_start = 10, h_end = 15, h_type = ''inversion'',
      h_class = ''highlight-inversion''\<rparr>"

definition boldTag :: highlight where
  "boldTag =
     \<lparr>h_text = ''<b>'', h_start = 2, h_end = 5, h_type = ''tension'',
      h_class = ''highlight-tension''\<rparr>"

definition threeSpans :: "highlight list" where
  "threeSpans =
     [\<lparr>h_text = ''01234'', h_start = 0, h_end = 5, h_type = ''tension'',
       h_class = ''highlight-tension''\<rparr>,
      \<lparr>h_text = ''234567'', h_start = 2, h_end = 8, h_type = ''absolutism'',
       h_class = ''highlight-absolutism''\<rparr>,
      \<lparr>h_text = ''AB'', h_start = 10, h_end = 12, h_type = ''inversion'',
       h_class = ''highlight-inversion''\<rparr>]"

section \<open>Evaluation\<close>

declare execLoop.simps [code]

section \<open>Sorting\<close>

lemma set_insort_cmp: "set (insort_cmp cmp x ys) = insert x (set ys)"
  by (induction ys) auto

lemma set_foldr_insort_cmp: "set (foldr (insort_cmp cmp) xs []) = set xs"
  by (induction xs) (simp_all add: set_insort_cmp)

lemma set_sort_cmp: "set (sort_cmp cmp xs) = set xs"
  by (simp add: sort_cmp_def set_foldr_insort_cmp)

lemma length_insort_cmp: "length (insort_cmp cmp x ys) = Suc (length ys)"
  by (induction ys) auto

lemma length_sort_cmp: "length (sort_cmp cmp xs) = length xs"
  unfolding sort_cmp_def by (induction xs) (simp_all add: length_insort_cmp)

lemma sorted_insort_cmp:
  "sorted (map h_start ys) \<Longrightarrow> sorted (map h_start (insort_cmp byStartAscending x ys))"
  by (induction ys) (auto simp: set_insort_cmp byStartAscending_def)

lemma sorted_sort_cmp: "sorted (map h_start (sort_cmp byStartAscending xs))"
  unfolding sort_cmp_def by (induction xs) (simp_all add: sorted_insort_cmp)

lemma filter_insort_cmp:
  "filter (\<lambda>h. h_start h = n) (insort_cmp byStartAscending x ys) =
     (if h_start x = n then x # filter (\<lambda>h. h_start h = n) ys
      else filter (\<lambda>h. h_start h = n) ys)"
  by (induction ys) (auto simp: byStartAscending_def)

lemma sort_cmp_stable:
  "filter (\<lambda>h. h_start h = n) (sort_cmp byStartAscending xs) = filter (\<lambda>h. h_start h = n) xs"
  unfolding sort_cmp_def by (induction xs) (simp_all add: filter_insort_cmp)

lemma sorted_wrt_insort_cmp:
  assumes "\<And>a b. P a b \<Longrightarrow> P b a"
  shows "sorted_wrt P (insort_cmp cmp x ys) = sorted_wrt P (x # ys)"
  using assms by (induction ys) (auto simp: set_insort_cmp)

lemma sorted_wrt_sort_cmp:
  assumes "\<And>a b. P a b \<Longrightarrow> P b a"
  shows "sorted_wrt P (sort_cmp cmp xs) = sorted_wrt P xs"
  unfolding sort_cmp_def
  by (induction xs) (simp_all add: sorted_wrt_insort_cmp[OF assms] set_foldr_insort_cmp)

lemma sorted_wrt_sym_nth:
  assumes "\<And>a b. P a b \<Longrightarrow> P b a" and "sorted_wrt P xs"
    and "i < length xs" and "j < length xs" and "i \<noteq> j"
  shows "P (xs ! i) (xs ! j)"
proof (cases "i < j")
  case True
  with assms show ?thesis by (simp add: sorted_wrt_iff_nth_less)
next
  case False
  with assms have "j < i" by simp
  with assms have "P (xs ! j) (xs ! i)" by (simp add: sorted_wrt_iff_nth_less)
  with assms(1) show ?thesis by blast
qed

lemma insort_descending_last:
  "\<forall>y \<in> set ys. h_start x < h_start y \<Longrightarrow> insort_cmp byStartDescending x ys = ys @ [x]"
  by (induction ys) (auto simp: byStartDescending_def)

lemma sort_descending_rev:
  "sorted_wrt (\<lambda>a b. h_start a < h_start b) ks \<Longrightarrow> sort_cmp byStartDescending ks = rev ks"
  unfolding sort_cmp_def
  by (induction ks) (simp_all add: insort_descending_last)

section \<open>The overlap filter\<close>

lemma isOverlapping_iff: "isOverlapping ks h = (\<exists>k \<in> set ks. overlapsSpec k h)"
  by (auto simp: isOverlapping_def overlapsSpec_def list_ex_iff)

lemma removeOverlaps_snoc:
  "removeOverlaps acc (xs @ [h]) =
     (if isOverlapping (removeOverlaps acc xs) h then removeOverlaps acc xs
      else removeOverlaps acc xs @ [h])"
  by (induction xs arbitrary: acc) simp_all

lemma removeOverlaps_append:
  "removeOverlaps acc (xs @ ys) = removeOverlaps (removeOverlaps acc xs) ys"
  by (induction xs arbitrary: acc) simp_all

lemma removeOverlaps_prefix: "prefix acc (removeOverlaps acc xs)"
proof (induction xs arbitrary: acc)
  case Nil
  show ?case by simp
next
  case (Cons h xs)
  have "prefix acc (if \<not> isOverlapping acc h then acc @ [h] else acc)" by simp
  also have "prefix \<dots> (removeOverlaps acc (h # xs))" using Cons.IH by simp
  finally show ?case .
qed

lemma set_removeOverlaps: "set (removeOverlaps acc xs) \<subseteq> set acc \<union> set xs"
proof (induction xs arbitrary: acc)
  case Nil
  show ?case by simp
next
  case (Cons h xs)
  have "set (removeOverlaps acc (h # xs)) \<subseteq>
          set (if \<not> isOverlapping acc h then acc @ [h] else acc) \<union> set xs"
    using Cons.IH by simp
  also have "\<dots> \<subseteq> set acc \<union> set (h # xs)" by auto
  finally show ?case .
qed

lemma removeOverlaps_chain:
  "sorted_wrt (\<lambda>a b. h_end a \<le> h_start b) ks \<Longrightarrow>
   \<forall>k \<in> set ks. \<forall>r \<in> set rest. h_start k \<le> h_start r \<Longrightarrow>
   sorted (map h_start rest) \<Longrightarrow>
   sorted_wrt (\<lambda>a b. h_end a \<le> h_start b) (removeOverlaps ks rest)"
proof (induction rest arbitrary: ks)
  case Nil
  then show ?case by simp
next
  case (Cons h rest)
  show ?case
  proof (cases "isOverlapping ks h")
    case True
    with Cons show ?thesis by simp
  next
    case False
    have "\<forall>k \<in> set ks. h_end k \<le> h_start h"
    proof
      fix k assume k: "k \<in> set ks"
      with Cons.prems(2) have "h_start k \<le> h_start h" by simp
      with False k show "h_end k \<le> h_start h"
        by (auto simp: isOverlapping_def list_ex_iff)
    qed
    with Cons.prems have 1: "sorted_wrt (\<lambda>a b. h_end a \<le> h_start b) (ks @ [h])"
      by (simp add: sorted_wrt_append)
    have 2: "\<forall>k \<in> set (ks @ [h]). \<forall>r \<in> set rest. h_start k \<le> h_start r"
      using Cons.prems by auto
    have 3: "sorted (map h_start rest)" using Cons.prems by simp
    from Cons.IH[OF 1 2 3] False show ?thesis by simp
  qed
qed

lemma kept_chain:
  "sorted_wrt (\<lambda>a b. h_end a \<le> h_start b)
     (removeOverlaps [] (sort_cmp byStartAscending hs))"
  by (rule removeOverlaps_chain) (simp_all add: sorted_sort_cmp)

lemma kept_apart: "sorted_wrt apart (removeOverlaps [] (sort_cmp byStartAscending hs))"
  by (rule sorted_wrt_mono_rel[OF _ kept_chain]) (simp add: apart_def)

lemma apart_sym: "apart a b \<Longrightarrow> apart b a"
  by (auto simp: apart_def)

lemma filtered_apart: "sorted_wrt apart (filteredOf hs)"
  unfolding filteredOf_def
  by (simp add: sorted_wrt_sort_cmp[of apart, OF apart_sym] kept_apart)

lemma set_filteredOf: "set (filteredOf hs) \<subseteq> set hs"
  unfolding filteredOf_def using set_removeOverlaps[of "[]" "sort_cmp byStartAscending hs"]
  by (simp add: set_sort_cmp)

lemma filter_at_most_one:
  "sorted_wrt R xs \<Longrightarrow> (\<And>x y. Q x \<Longrightarrow> Q y \<Longrightarrow> \<not> R x y) \<Longrightarrow> length (filter Q xs) \<le> 1"
proof (induction xs)
  case Nil
  show ?case by simp
next
  case (Cons x xs)
  show ?case
  proof (cases "Q x")
    case True
    have "filter Q xs = []"
      using Cons.prems True by (auto simp: filter_empty_conv)
    with True show ?thesis by simp
  next
    case False
    with Cons show ?thesis by simp
  qed
qed

section \<open>The kept spans\<close>

lemma kept_threeSpans:
  "removeOverlaps [] (sort_cmp byStartAscending threeSpans) = [threeSpans ! 0, threeSpans ! 2]"
  by (simp add: threeSpans_def sort_cmp_def byStartAscending_def isOverlapping_def)

lemma filtered_threeSpans: "filteredOf threeSpans = [threeSpans ! 2, threeSpans ! 0]"
  unfolding filteredOf_def kept_threeSpans
  by (simp add: threeSpans_def sort_cmp_def byStartDescending_def)

text \<open>
  C1: over the spans sorted ascending by start, ties in the order of the original list,
  a candidate is kept exactly when no span kept before it overlaps it in the sense
  \<^verbatim>\<open>kept.start <= candidate.start < kept.end\<close> or
  \<^verbatim>\<open>kept.start < candidate.end <= kept.end\<close>; what is kept stays kept for the rest of the
  scan; and the spans \<open>{0,5}, {2,8}, {10,12}\<close> leave \<open>{0,5}, {10,12}\<close>.
\<close>

theorem kept_iff_no_kept_overlap:
  "removeOverlaps [] (xs @ [c]) =
     (if \<exists>k \<in> set (removeOverlaps [] xs). overlapsSpec k c
      then removeOverlaps [] xs else removeOverlaps [] xs @ [c])
   \<and> prefix (removeOverlaps [] (xs @ [c])) (removeOverlaps [] (xs @ c # ys))
   \<and> sorted (map h_start (sort_cmp byStartAscending hs))
   \<and> filter (\<lambda>h. h_start h = n) (sort_cmp byStartAscending hs)
       = filter (\<lambda>h. h_start h = n) hs
   \<and> map (\<lambda>h. (h_start h, h_end h)) threeSpans = [(0, 5), (2, 8), (10, 12)]
   \<and> map (\<lambda>h. (h_start h, h_end h))
         (removeOverlaps [] (sort_cmp byStartAscending threeSpans)) = [(0, 5), (10, 12)]"
proof -
  have 1: "removeOverlaps [] (xs @ [c]) =
     (if \<exists>k \<in> set (removeOverlaps [] xs). overlapsSpec k c
      then removeOverlaps [] xs else removeOverlaps [] xs @ [c])"
    by (simp only: removeOverlaps_snoc isOverlapping_iff)
  have "removeOverlaps [] (xs @ c # ys) = removeOverlaps (removeOverlaps [] (xs @ [c])) ys"
    using removeOverlaps_append[of "[]" "xs @ [c]" ys] by simp
  then have 2: "prefix (removeOverlaps [] (xs @ [c])) (removeOverlaps [] (xs @ c # ys))"
    by (simp add: removeOverlaps_prefix)
  have 3: "map (\<lambda>h. (h_start h, h_end h)) threeSpans = [(0, 5), (2, 8), (10, 12)]"
    by (simp add: threeSpans_def)
  have 4: "map (\<lambda>h. (h_start h, h_end h))
         (removeOverlaps [] (sort_cmp byStartAscending threeSpans)) = [(0, 5), (10, 12)]"
    unfolding kept_threeSpans by (simp add: threeSpans_def)
  from 1 2 3 4 sorted_sort_cmp[of hs] sort_cmp_stable[of n hs] show ?thesis by blast
qed

theorem kept_iff_no_kept_overlap_witness:
  "removeOverlaps [] ([threeSpans ! 0] @ [threeSpans ! 1]) = [threeSpans ! 0]
   \<and> removeOverlaps [] ([threeSpans ! 0, threeSpans ! 1] @ [threeSpans ! 2])
       = [threeSpans ! 0, threeSpans ! 2]
   \<and> overlapsSpec (threeSpans ! 0) (threeSpans ! 1)
   \<and> \<not> overlapsSpec (threeSpans ! 0) (threeSpans ! 2)"
proof -
  have a: "removeOverlaps [] [threeSpans ! 0] = [threeSpans ! 0]"
    by (simp add: isOverlapping_def)
  have o1: "overlapsSpec (threeSpans ! 0) (threeSpans ! 1)"
    by (simp add: overlapsSpec_def threeSpans_def)
  have o2: "\<not> overlapsSpec (threeSpans ! 0) (threeSpans ! 2)"
    by (simp add: overlapsSpec_def threeSpans_def)
  have b: "removeOverlaps [] ([threeSpans ! 0] @ [threeSpans ! 1]) = [threeSpans ! 0]"
  proof -
    have "removeOverlaps [] ([threeSpans ! 0] @ [threeSpans ! 1]) =
      (if \<exists>k \<in> set (removeOverlaps [] [threeSpans ! 0]). overlapsSpec k (threeSpans ! 1)
       then removeOverlaps [] [threeSpans ! 0]
       else removeOverlaps [] [threeSpans ! 0] @ [threeSpans ! 1])"
      using kept_iff_no_kept_overlap[of "[threeSpans ! 0]" "threeSpans ! 1" "[]" "[]" 0]
      by (rule conjunct1)
    also have "\<dots> = [threeSpans ! 0]" unfolding a using o1 by simp
    finally show ?thesis .
  qed
  have c: "removeOverlaps [] ([threeSpans ! 0, threeSpans ! 1] @ [threeSpans ! 2])
       = [threeSpans ! 0, threeSpans ! 2]"
  proof -
    have "removeOverlaps [] ([threeSpans ! 0, threeSpans ! 1] @ [threeSpans ! 2]) =
      (if \<exists>k \<in> set (removeOverlaps [] [threeSpans ! 0, threeSpans ! 1]).
            overlapsSpec k (threeSpans ! 2)
       then removeOverlaps [] [threeSpans ! 0, threeSpans ! 1]
       else removeOverlaps [] [threeSpans ! 0, threeSpans ! 1] @ [threeSpans ! 2])"
      using kept_iff_no_kept_overlap[of "[threeSpans ! 0, threeSpans ! 1]" "threeSpans ! 2"
          "[]" "[]" 0]
      by (rule conjunct1)
    also have "\<dots> = [threeSpans ! 0, threeSpans ! 2]"
      using b o2 by (simp del: removeOverlaps.simps)
    finally show ?thesis .
  qed
  from b c o1 o2 show ?thesis by blast
qed

text \<open>
  C2: after the overlap filter, and after the reverse sort that follows it, two kept
  spans at different positions never overlap: \<^verbatim>\<open>A.end <= B.start\<close> or
  \<^verbatim>\<open>B.end <= A.start\<close>.
\<close>

theorem kept_pairwise_apart:
  assumes "K = removeOverlaps [] (sort_cmp byStartAscending hs) \<or> K = filteredOf hs"
    and "i < length K" and "j < length K" and "i \<noteq> j"
  shows "h_end (K ! i) \<le> h_start (K ! j) \<or> h_end (K ! j) \<le> h_start (K ! i)"
proof -
  from assms(1) have "sorted_wrt apart K"
    using kept_apart[of hs] filtered_apart[of hs] by blast
  from sorted_wrt_sym_nth[of apart, OF apart_sym this assms(2,3,4)]
  show ?thesis by (simp add: apart_def)
qed

theorem kept_pairwise_apart_witness:
  "(0::nat) < length (filteredOf threeSpans) \<and> (1::nat) < length (filteredOf threeSpans)
   \<and> (0::nat) \<noteq> 1
   \<and> (h_end (filteredOf threeSpans ! 0) \<le> h_start (filteredOf threeSpans ! 1)
       \<or> h_end (filteredOf threeSpans ! 1) \<le> h_start (filteredOf threeSpans ! 0))"
proof -
  have l: "(0::nat) < length (filteredOf threeSpans)" "(1::nat) < length (filteredOf threeSpans)"
    by (simp_all add: filtered_threeSpans)
  have n: "(0::nat) \<noteq> 1" by simp
  from kept_pairwise_apart[of "filteredOf threeSpans" threeSpans 0 1, OF _ l n] l n
  show ?thesis by blast
qed

section \<open>The matching loops\<close>

lemma scanFrom_Some:
  "scanFrom m s i = Some (j, e) \<Longrightarrow> i \<le> j \<and> j \<le> length s \<and> m s j = Some e"
proof (induction m s i rule: scanFrom.induct)
  case (1 m s i)
  show ?case
  proof (cases "m s i")
    case None
    with "1.prems" have "\<not> length s < i" and "scanFrom m s (Suc i) = Some (j, e)"
      by (auto simp: scanFrom.simps[of m s i] split: if_splits)
    with "1.IH"[OF _ None] show ?thesis by auto
  next
    case (Some e')
    with "1.prems" show ?thesis
      by (auto simp: scanFrom.simps[of m s i] split: if_splits)
  qed
qed

lemma exec_cases:
  obtains (null) "exec pattern s = (None, pattern\<lparr>lastIndex := 0\<rparr>)"
        "scanFrom (re_matcher pattern) s (lastIndex pattern) = None"
  | (found) i e where
        "exec pattern s =
           (Some \<lparr>m_index = i, m_text = substring s i e\<rparr>, pattern\<lparr>lastIndex := e\<rparr>)"
        "scanFrom (re_matcher pattern) s (lastIndex pattern) = Some (i, e)"
  by (cases "scanFrom (re_matcher pattern) s (lastIndex pattern)") (auto simp: exec_def)

lemma execLoop_leaves:
  assumes "execLoop pattern s found = Some r"
  shows "snd r = pattern\<lparr>lastIndex := 0\<rparr>"
proof (rule execLoop.raw_induct
    [where P = "\<lambda>pattern s found r. snd r = pattern\<lparr>lastIndex := 0\<rparr>", OF _ assms])
  fix loop pattern s found r
  assume IH: "\<And>p s found r. loop p s found = Some r \<Longrightarrow> snd r = p\<lparr>lastIndex := 0\<rparr>"
    and step: "(case exec pattern s of
                  (None, pattern') \<Rightarrow> Some (found, pattern')
                | (Some m, pattern') \<Rightarrow> loop pattern' s (found @ [m])) = Some r"
  show "snd r = pattern\<lparr>lastIndex := 0\<rparr>"
  proof (cases rule: exec_cases[where pattern = pattern and s = s])
    case null
    with step show ?thesis by auto
  next
    case (found i e)
    with step have "loop (pattern\<lparr>lastIndex := e\<rparr>) s
        (found @ [\<lparr>m_index = i, m_text = substring s i e\<rparr>]) = Some r"
      by simp
    from IH[OF this] show ?thesis by simp
  qed
qed

lemma execLoop_total:
  assumes "advancing (re_matcher pattern)"
  shows "\<exists>r. execLoop pattern s found = Some r"
  using assms
proof (induction "Suc (length s) - lastIndex pattern" arbitrary: pattern found rule: less_induct)
  case less
  show ?case
  proof (cases rule: exec_cases[where pattern = pattern and s = s])
    case null
    then show ?thesis
      by (subst execLoop.simps) simp
  next
    case (found i e)
    from scanFrom_Some[OF found(2)]
    have b: "lastIndex pattern \<le> i" "i \<le> length s" "re_matcher pattern s i = Some e"
      by auto
    with less.prems have "i < e" by (auto simp: advancing_def)
    let ?p = "pattern\<lparr>lastIndex := e\<rparr>"
    have "Suc (length s) - lastIndex ?p < Suc (length s) - lastIndex pattern"
      using b \<open>i < e\<close> by simp
    moreover have "advancing (re_matcher ?p)" using less.prems by simp
    ultimately obtain r
      where "execLoop ?p s (found @ [\<lparr>m_index = i, m_text = substring s i e\<rparr>]) = Some r"
      using less.hyps by blast
    with found(1) show ?thesis
      by (subst execLoop.simps) simp
  qed
qed

lemma tensionLoop_leaves:
  "tensionLoop ps s acc = Some (ms, ps') \<Longrightarrow> ps' = map (\<lambda>p. p\<lparr>lastIndex := 0\<rparr>) ps"
proof (induction ps arbitrary: acc ms ps')
  case Nil
  then show ?case by simp
next
  case (Cons p ps)
  from Cons.prems obtain found p' ms' rest'
    where e: "execLoop p s [] = Some (found, p')"
      and t: "tensionLoop ps s (acc @ map tensionMatch found) = Some (ms', rest')"
      and r: "ps' = p' # rest'"
    by (auto simp: bind_eq_Some_conv)
  from execLoop_leaves[OF e] Cons.IH[OF t] r show ?case by simp
qed

lemma tensionLoop_total:
  "\<forall>p \<in> set ps. advancing (re_matcher p) \<Longrightarrow> \<exists>r. tensionLoop ps s acc = Some r"
proof (induction ps arbitrary: acc)
  case Nil
  show ?case by simp
next
  case (Cons p ps)
  from Cons.prems obtain found p' where e: "execLoop p s [] = Some (found, p')"
    using execLoop_total[of p s "[]"] by auto
  from Cons obtain r where "tensionLoop ps s (acc @ map tensionMatch found) = Some r"
    by fastforce
  with e show ?case by (cases r) simp
qed



lemma patternsLoop_keeps: "patternsLoop eng ps sen out = Some r \<Longrightarrow> set out \<subseteq> set r"
proof (induction ps arbitrary: out)
  case Nil
  then show ?case by simp
next
  case (Cons p ps)
  from Cons.prems obtain found p'
    where "patternsLoop eng ps sen (out @ map (phraseAt sen) found) = Some r"
    by (auto simp: bind_eq_Some_conv)
  from Cons.IH[OF this] show ?case by simp
qed

lemma sentencesLoop_keeps: "sentencesLoop eng ps sens out = Some r \<Longrightarrow> set out \<subseteq> set r"
proof (induction sens arbitrary: out)
  case Nil
  then show ?case by simp
next
  case (Cons sen sens)
  from Cons.prems obtain out' where 1: "patternsLoop eng ps sen out = Some out'"
    and 2: "sentencesLoop eng ps sens out' = Some r"
    by (auto simp: bind_eq_Some_conv)
  from patternsLoop_keeps[OF 1] Cons.IH[OF 2] show ?case by blast
qed

section \<open>The detectors\<close>



section \<open>The locals after the three loops\<close>

lemma foldl_addTension:
  "foldl addTension v T =
     v\<lparr>highlights := highlights v @ map tensionHighlight T,
       allMatches := allMatches v \<union> toLowerCase ` p_text ` set T,
       tensionCount := tensionCount v + length T\<rparr>"
  by (induction T arbitrary: v) (auto simp: addTension_def)

lemma foldl_addAbsolutism:
  "foldl addAbsolutism v A =
     v\<lparr>highlights := highlights v @ map absolutismHighlight A,
       allMatches := allMatches v \<union> toLowerCase ` d_text ` set A,
       absolutismCount := absolutismCount v + length A\<rparr>"
  by (induction A arbitrary: v) (auto simp: addAbsolutism_def)

lemma foldl_addInversion:
  "foldl addInversion v I =
     v\<lparr>highlights := highlights v @ map inversionHighlight I,
       allMatches := allMatches v \<union> toLowerCase ` d_text ` set I,
       inversionCount := inversionCount v + length I\<rparr>"
  by (induction I arbitrary: v) (auto simp: addInversion_def)

text \<open>The locals in closed form, from what the three detectors returned.\<close>

lemma detectAll_Some:
  assumes "detectAll eng P l nlp s = Some (v, P')"
  obtains T A I where
    "findTensionPhrases P s = Some (T, P')"
    "(if l \<and> nlp \<noteq> None then detectAbsolutismsNLP eng nlp s else Some []) = Some A"
    "(if l \<and> nlp \<noteq> None then detectInversionsNLP eng nlp s else Some []) = Some I"
    "highlights v = map tensionHighlight T @ map absolutismHighlight A @ map inversionHighlight I"
    "allMatches v = toLowerCase ` (p_text ` set T \<union> d_text ` set A \<union> d_text ` set I)"
    "tensionCount v = length T" "absolutismCount v = length A" "inversionCount v = length I"
proof (cases "l \<and> nlp \<noteq> None")
  case True
  with assms obtain T A I where
    1: "findTensionPhrases P s = Some (T, P')"
    and 2: "detectAbsolutismsNLP eng nlp s = Some A"
    and 3: "detectInversionsNLP eng nlp s = Some I"
    and v: "v = foldl addInversion (foldl addAbsolutism (foldl addTension initialLocals T) A) I"
    by (auto simp: detectAll_def bind_eq_Some_conv Let_def)
  show ?thesis
  proof (rule that[of T A I])
    show "allMatches v = toLowerCase ` (p_text ` set T \<union> d_text ` set A \<union> d_text ` set I)"
      unfolding v
      by (simp add: foldl_addTension foldl_addAbsolutism foldl_addInversion initialLocals_def
          image_Un)
  qed (use True 1 2 3 in \<open>simp_all add: v foldl_addTension foldl_addAbsolutism
         foldl_addInversion initialLocals_def\<close>)
next
  case False
  with assms obtain T where
    1: "findTensionPhrases P s = Some (T, P')"
    and v: "v = foldl addTension initialLocals T"
    by (auto simp: detectAll_def bind_eq_Some_conv Let_def split: if_splits)
  show ?thesis
  proof (rule that[of T "[]" "[]"])
    show "allMatches v = toLowerCase ` (p_text ` set T \<union> d_text ` set [] \<union> d_text ` set [])"
      unfolding v by (simp add: foldl_addTension initialLocals_def)
  qed (use False 1 in \<open>auto simp add: v foldl_addTension initialLocals_def\<close>)
qed


lemma analyzeText_blank:
  "trim s = [] \<Longrightarrow> analyzeText eng P l nlp s = Some (pleaseEnterText, P)"
  by (simp add: analyzeText_def)

lemma analyzeText_eq:
  "trim s \<noteq> [] \<Longrightarrow>
   analyzeText eng P l nlp s =
     map_option (\<lambda>(v, P'). (resultOf s v, P')) (detectAll eng P l nlp s)"
  by (cases "detectAll eng P l nlp s") (auto simp: analyzeText_def tryBody_def tryCatch_def)

lemma analyzeText_Some:
  assumes "trim s \<noteq> []" and "analyzeText eng P l nlp s = Some (r, P')"
  obtains v where "detectAll eng P l nlp s = Some (v, P')" "r = resultOf s v"
  using assms by (auto simp: analyzeText_eq)

text \<open>The loops end for advancing patterns only: a pattern that matches the empty
  string leaves \<^verbatim>\<open>lastIndex\<close> where it is, and the loop, and the analysis with it,
  does not end.\<close>

lemma execLoop_emptyMatch:
  assumes "re_matcher pattern = emptyMatch" and "lastIndex pattern \<le> length s"
  shows "execLoop pattern s found = None"
proof (cases "execLoop pattern s found")
  case None
  then show ?thesis .
next
  case (Some r)
  have "re_matcher pattern = emptyMatch \<and> lastIndex pattern \<le> length s \<longrightarrow> False"
  proof (rule execLoop.raw_induct
      [where P = "\<lambda>pattern s found r.
          re_matcher pattern = emptyMatch \<and> lastIndex pattern \<le> length s \<longrightarrow> False", OF _ Some])
    fix loop pattern s found r
    assume IH: "\<And>p s found r. loop p s found = Some r \<Longrightarrow>
          re_matcher p = emptyMatch \<and> lastIndex p \<le> length s \<longrightarrow> False"
      and step: "(case exec pattern s of
                  (None, pattern') \<Rightarrow> Some (found, pattern')
                | (Some m, pattern') \<Rightarrow> loop pattern' s (found @ [m])) = Some r"
    show "re_matcher pattern = emptyMatch \<and> lastIndex pattern \<le> length s \<longrightarrow> False"
    proof
      assume c: "re_matcher pattern = emptyMatch \<and> lastIndex pattern \<le> length s"
      then have "exec pattern s =
          (Some \<lparr>m_index = lastIndex pattern,
                  m_text = substring s (lastIndex pattern) (lastIndex pattern)\<rparr>,
           pattern\<lparr>lastIndex := lastIndex pattern\<rparr>)"
        by (simp add: exec_def emptyMatch_def)
      with step have "loop (pattern\<lparr>lastIndex := lastIndex pattern\<rparr>) s
          (found @ [\<lparr>m_index = lastIndex pattern,
                  m_text = substring s (lastIndex pattern) (lastIndex pattern)\<rparr>]) = Some r"
        by simp
      from IH[OF this] c show False by simp
    qed
  qed
  with assms show ?thesis by simp
qed

lemma analyzeText_emptyMatch:
  "trim s \<noteq> [] \<Longrightarrow>
   analyzeText eng [\<lparr>re_matcher = emptyMatch, lastIndex = 0\<rparr>] l nlp s = None"
  by (simp add: analyzeText_eq detectAll_def findTensionPhrases_def execLoop_emptyMatch)

section \<open>The result of an analysis\<close>

lemma reset_at_rest:
  "\<forall>p \<in> set P. lastIndex p = 0 \<Longrightarrow> map (\<lambda>p. p\<lparr>lastIndex := 0\<rparr>) P = P"
  by (induction P) simp_all

lemma detectAll_leaves:
  assumes "detectAll eng P l nlp s = Some (v, P')"
  shows "P' = map (\<lambda>p. p\<lparr>lastIndex := 0\<rparr>) P"
proof -
  from assms obtain T where "findTensionPhrases P s = Some (T, P')"
    by (rule detectAll_Some)
  then show ?thesis
    unfolding findTensionPhrases_def by (rule tensionLoop_leaves)
qed

lemma analyzeText_leaves:
  assumes "\<forall>p \<in> set P. lastIndex p = 0" and "analyzeText eng P l nlp s = Some (r, P')"
  shows "P' = P"
proof (cases "trim s = []")
  case True
  with assms(2) show ?thesis by (simp add: analyzeText_blank)
next
  case False
  from analyzeText_Some[OF False assms(2)] obtain v
    where "detectAll eng P l nlp s = Some (v, P')" by blast
  from detectAll_leaves[OF this] reset_at_rest[OF assms(1)] show ?thesis by simp
qed


lemma advancing_literal: "advancing (literal w)"
  by (auto simp: advancing_def literal_def)

lemma word_at_rest: "lastIndex (word w) = 0" "re_matcher (word w) = literal w"
  by (simp_all add: word_def)

text \<open>
  C3: the counts are taken before the overlap filter. \<open>total\<close> is the number of
  distinct lowercase texts among the spans the three detectors returned, and
  \<open>tension\<close>, \<open>absolutism\<close> and \<open>inversion\<close> are the numbers of spans each detector
  returned (none for a detector that the readiness test skips); so \<open>total\<close> is at most
  their sum.
\<close>

theorem counts_are_raw:
  assumes "analyzeText eng P l nlp s = Some (r, P')"
  shows "total (stats r) \<le> tension (stats r) + absolutism (stats r) + inversion (stats r)
    \<and> (trim s \<noteq> [] \<longrightarrow>
        (\<exists>T A I.
           findTensionPhrases P s = Some (T, P')
         \<and> (if l \<and> nlp \<noteq> None then detectAbsolutismsNLP eng nlp s else Some []) = Some A
         \<and> (if l \<and> nlp \<noteq> None then detectInversionsNLP eng nlp s else Some []) = Some I
         \<and> total (stats r)
             = card (toLowerCase ` (p_text ` set T \<union> d_text ` set A \<union> d_text ` set I))
         \<and> tension (stats r) = length T
         \<and> absolutism (stats r) = length A
         \<and> inversion (stats r) = length I))"
proof (cases "trim s = []")
  case True
  with assms show ?thesis by (auto simp: analyzeText_blank pleaseEnterText_def)
next
  case False
  from analyzeText_Some[OF False assms] obtain v
    where d: "detectAll eng P l nlp s = Some (v, P')" and r: "r = resultOf s v" by blast
  from d obtain T A I where
    1: "findTensionPhrases P s = Some (T, P')"
    and 2: "(if l \<and> nlp \<noteq> None then detectAbsolutismsNLP eng nlp s else Some []) = Some A"
    and 3: "(if l \<and> nlp \<noteq> None then detectInversionsNLP eng nlp s else Some []) = Some I"
    and m: "allMatches v = toLowerCase ` (p_text ` set T \<union> d_text ` set A \<union> d_text ` set I)"
    and c: "tensionCount v = length T" "absolutismCount v = length A"
           "inversionCount v = length I"
    by (rule detectAll_Some)
  have "card (toLowerCase ` (p_text ` set T \<union> d_text ` set A \<union> d_text ` set I))
          \<le> card (p_text ` set T \<union> d_text ` set A \<union> d_text ` set I)"
    by (rule card_image_le) simp
  also have "\<dots> \<le> card (p_text ` set T) + card (d_text ` set A) + card (d_text ` set I)"
    by (meson add_le_mono1 card_Un_le le_trans)
  also have "\<dots> \<le> length T + length A + length I"
    by (meson add_le_mono card_image_le card_length le_trans List.finite_set)
  finally have le: "card (allMatches v) \<le> length T + length A + length I"
    by (simp add: m)
  from le c have "total (stats r) \<le> tension (stats r) + absolutism (stats r) + inversion (stats r)"
    by (simp add: r resultOf_def)
  moreover from 1 2 3 m c have "\<exists>T A I.
           findTensionPhrases P s = Some (T, P')
         \<and> (if l \<and> nlp \<noteq> None then detectAbsolutismsNLP eng nlp s else Some []) = Some A
         \<and> (if l \<and> nlp \<noteq> None then detectInversionsNLP eng nlp s else Some []) = Some I
         \<and> total (stats r)
             = card (toLowerCase ` (p_text ` set T \<union> d_text ` set A \<union> d_text ` set I))
         \<and> tension (stats r) = length T
         \<and> absolutism (stats r) = length A
         \<and> inversion (stats r) = length I"
    by (simp add: r resultOf_def)
  ultimately show ?thesis by blast
qed


lemma heNever_not_blank: "trim heNever \<noteq> []"
  by code_simp

lemma heNever_analysis:
  \<open>map_option fst
     (analyzeText literalEngine [word ''never lies''] True (Some readHeNever) heNever) =
   Some \<lparr>highlightedText =
           ''He <span class="highlight-tension">never lies</span>'',
         stats = \<lparr>total = 2, tension = 1, absolutism = 1, inversion = 1\<rparr>\<rparr>\<close>
  by code_simp

theorem counts_are_raw_witness:
  \<open>\<exists>P' T A I.
      analyzeText literalEngine [word ''never lies''] True (Some readHeNever) heNever =
        Some (\<lparr>highlightedText =
                 ''He <span class="highlight-tension">never lies</span>'',
               stats = \<lparr>total = 2, tension = 1, absolutism = 1, inversion = 1\<rparr>\<rparr>, P')
    \<and> findTensionPhrases [word ''never lies''] heNever = Some (T, P')
    \<and> detectAbsolutismsNLP literalEngine (Some readHeNever) heNever = Some A
    \<and> detectInversionsNLP literalEngine (Some readHeNever) heNever = Some I
    \<and> card (toLowerCase ` (p_text ` set T \<union> d_text ` set A \<union> d_text ` set I)) = 2
    \<and> length T = 1 \<and> length A = 1 \<and> length I = 1\<close>
proof -
  from heNever_analysis obtain P' where
    h: \<open>analyzeText literalEngine [word ''never lies''] True (Some readHeNever) heNever =
        Some (\<lparr>highlightedText =
                 ''He <span class="highlight-tension">never lies</span>'',
               stats = \<lparr>total = 2, tension = 1, absolutism = 1, inversion = 1\<rparr>\<rparr>, P')\<close>
    by auto
  from counts_are_raw[OF h] heNever_not_blank h show ?thesis
    by auto
qed

text \<open>
  C7: a call leaves the shared patterns as it found them, every \<^verbatim>\<open>lastIndex\<close> back
  at 0, so the next call with the same text and the same tokenizer starts from the same
  state and returns the same markup and the same counts.
\<close>

theorem analyze_is_repeatable:
  assumes "\<forall>p \<in> set P. lastIndex p = 0"
    and "analyzeText eng P l nlp s = Some (r, P')"
  shows "P' = P \<and> analyzeText eng P' l nlp s = Some (r, P')"
  using analyzeText_leaves[OF assms] assms(2) by simp

theorem analyze_is_repeatable_witness:
  \<open>lastIndex (word ''never lies'') = 0
   \<and> analyzeText literalEngine [word ''never lies''] True (Some readHeNever) heNever =
        Some (\<lparr>highlightedText =
                 ''He <span class="highlight-tension">never lies</span>'',
               stats = \<lparr>total = 2, tension = 1, absolutism = 1, inversion = 1\<rparr>\<rparr>,
              [word ''never lies''])\<close>
proof -
  have rest: "\<forall>p \<in> set [word ''never lies'']. lastIndex p = 0"
    by (simp add: word_at_rest)
  from heNever_analysis obtain P' where
    h: \<open>analyzeText literalEngine [word ''never lies''] True (Some readHeNever) heNever =
        Some (\<lparr>highlightedText =
                 ''He <span class="highlight-tension">never lies</span>'',
               stats = \<lparr>total = 2, tension = 1, absolutism = 1, inversion = 1\<rparr>\<rparr>, P')\<close>
    by auto
  from analyze_is_repeatable[OF rest h] rest show ?thesis
    by auto
qed

section \<open>Tokenizer states\<close>

lemma detectors_without_nlp:
  "detectAbsolutismsNLP eng None s = Some []" "detectInversionsNLP eng None s = Some []"
  by (simp_all add: detectAbsolutismsNLP_def detectInversionsNLP_def)

lemma detectors_when_read_throws:
  "readDoc s = Inl e \<Longrightarrow> detectAbsolutismsNLP eng (Some readDoc) s = Some []"
  "readDoc s = Inl e \<Longrightarrow> detectInversionsNLP eng (Some readDoc) s = Some []"
  by (simp_all add: detectAbsolutismsNLP_def detectInversionsNLP_def)

lemma detectAll_tension_only:
  assumes "l \<and> nlp \<noteq> None \<longrightarrow>
      detectAbsolutismsNLP eng nlp s = Some [] \<and> detectInversionsNLP eng nlp s = Some []"
  shows "detectAll eng P l nlp s =
     map_option (\<lambda>(T, P'). (foldl addTension initialLocals T, P')) (findTensionPhrases P s)"
proof (cases "l \<and> nlp \<noteq> None")
  case True
  with assms show ?thesis
    by (cases "findTensionPhrases P s") (auto simp: detectAll_def Let_def)
next
  case False
  then show ?thesis
    by (cases "findTensionPhrases P s") (auto simp: detectAll_def Let_def)
qed

lemma analyzeText_tension_only:
  assumes "l \<and> nlp \<noteq> None \<longrightarrow>
      detectAbsolutismsNLP eng nlp s = Some [] \<and> detectInversionsNLP eng nlp s = Some []"
  shows "analyzeText eng P l nlp s =
     (if trim s = [] then Some (pleaseEnterText, P)
      else map_option
             (\<lambda>(T, P').
                (\<lparr>highlightedText = renderHighlights (escapeHtml s) (map tensionHighlight T),
                  stats = \<lparr>total = card (toLowerCase ` p_text ` set T), tension = length T,
                           absolutism = 0, inversion = 0\<rparr>\<rparr>, P'))
             (findTensionPhrases P s))"
proof (cases "trim s = []")
  case True
  then show ?thesis by (simp add: analyzeText_blank)
next
  case False
  then show ?thesis
    by (cases "findTensionPhrases P s")
      (auto simp: analyzeText_eq detectAll_tension_only[OF assms] resultOf_def
        foldl_addTension initialLocals_def)
qed

text \<open>
  C6: while the tokenizer is unavailable (the flag is down, or the object is missing)
  both token detectors return the empty list without reading the text, the absolutism
  and inversion counts are 0, and the analysis is the one of the tension matches alone:
  they are counted, filtered and rendered, whatever the detectors' own patterns are.
\<close>

theorem unavailable_tokenizer_degrades:
  assumes "\<not> (l \<and> nlp \<noteq> None)"
  shows "detectAbsolutismsNLP eng None s = Some []
    \<and> detectInversionsNLP eng None s = Some []
    \<and> analyzeText eng P l nlp s =
        (if trim s = [] then Some (pleaseEnterText, P)
         else map_option
             (\<lambda>(T, P').
                (\<lparr>highlightedText = renderHighlights (escapeHtml s) (map tensionHighlight T),
                  stats = \<lparr>total = card (toLowerCase ` p_text ` set T), tension = length T,
                           absolutism = 0, inversion = 0\<rparr>\<rparr>, P'))
             (findTensionPhrases P s))
    \<and> ((\<forall>p \<in> set P. advancing (re_matcher p)) \<longrightarrow>
          (\<exists>r P'. analyzeText eng P l nlp s = Some (r, P')
             \<and> absolutism (stats r) = 0 \<and> inversion (stats r) = 0))"
proof -
  have t: "l \<and> nlp \<noteq> None \<longrightarrow>
      detectAbsolutismsNLP eng nlp s = Some [] \<and> detectInversionsNLP eng nlp s = Some []"
    using assms by blast
  note eq = analyzeText_tension_only[OF t, of P]
  have "\<exists>r P'. analyzeText eng P l nlp s = Some (r, P')
             \<and> absolutism (stats r) = 0 \<and> inversion (stats r) = 0"
    if adv: "\<forall>p \<in> set P. advancing (re_matcher p)"
  proof -
    from tensionLoop_total[OF adv] obtain T P'
      where "findTensionPhrases P s = Some (T, P')"
      by (fastforce simp: findTensionPhrases_def)
    then show ?thesis
      unfolding eq by (simp add: pleaseEnterText_def)
  qed
  with eq detectors_without_nlp[of eng s] show ?thesis by blast
qed

lemma heNever_without_nlp:
  \<open>map_option fst (analyzeText literalEngine [word ''never lies''] False None heNever) =
   Some \<lparr>highlightedText =
           ''He <span class="highlight-tension">never lies</span>'',
         stats = \<lparr>total = 1, tension = 1, absolutism = 0, inversion = 0\<rparr>\<rparr>\<close>
  by code_simp

theorem unavailable_tokenizer_degrades_witness:
  \<open>\<exists>P'. analyzeText literalEngine [word ''never lies''] False None heNever =
     Some (\<lparr>highlightedText =
              ''He <span class="highlight-tension">never lies</span>'',
            stats = \<lparr>total = 1, tension = 1, absolutism = 0, inversion = 0\<rparr>\<rparr>, P')
   \<and> map_option fst (findTensionPhrases [word ''never lies''] heNever) =
       Some [\<lparr>p_text = ''never lies'', p_start = 3, p_end = 13, p_type = ''tension''\<rparr>]\<close>
proof -
  have n: "\<not> (False \<and> (None :: nlp option) \<noteq> None)" by simp
  have adv: "\<forall>p \<in> set [word ''never lies'']. advancing (re_matcher p)"
    by (simp add: word_at_rest advancing_literal)
  from unavailable_tokenizer_degrades[OF n, of literalEngine heNever "[word ''never lies'']"] adv
  obtain r P' where
    a: "analyzeText literalEngine [word ''never lies''] False None heNever = Some (r, P')"
    by blast
  have f: \<open>map_option fst (findTensionPhrases [word ''never lies''] heNever) =
       Some [\<lparr>p_text = ''never lies'', p_start = 3, p_end = 13, p_type = ''tension''\<rparr>]\<close>
    by code_simp
  from a heNever_without_nlp f show ?thesis by auto
qed

text \<open>
  C8: for the input \<^verbatim>\<open>5 > 3 & true\<close>, when no detector returns a span, the markup is
  \<^verbatim>\<open>5 &gt; 3 &amp; true\<close>: it holds \<^verbatim>\<open>&gt;\<close> and \<^verbatim>\<open>&amp;\<close>, and no raw \<^verbatim>\<open><\<close>,
  \<^verbatim>\<open>>\<close> or \<^verbatim>\<open>&\<close>.
\<close>

theorem escaped_without_spans:
  assumes "findTensionPhrases P ''5 > 3 & true'' = Some ([], P')"
    and "l \<and> nlp \<noteq> None \<longrightarrow>
           detectAbsolutismsNLP eng nlp ''5 > 3 & true'' = Some [] \<and>
           detectInversionsNLP eng nlp ''5 > 3 & true'' = Some []"
  shows "\<exists>r. analyzeText eng P l nlp ''5 > 3 & true'' = Some (r, P')
    \<and> highlightedText r = ''5 &gt; 3 &amp; true''
    \<and> highlightedText r = ''5 '' @ ''&gt;'' @ '' 3 '' @ ''&amp;'' @ '' true''
    \<and> noRawMarkup (highlightedText r)
    \<and> stats r = \<lparr>total = 0, tension = 0, absolutism = 0, inversion = 0\<rparr>"
proof -
  have nb: "trim ''5 > 3 & true'' \<noteq> []" by code_simp
  have m: "renderHighlights (escapeHtml ''5 > 3 & true'') [] = ''5 &gt; 3 &amp; true''"
    by code_simp
  have raw: "noRawMarkup ''5 &gt; 3 &amp; true''" by code_simp
  show ?thesis
    unfolding analyzeText_tension_only[OF assms(2), of P]
    using nb assms(1) m raw by simp
qed

theorem escaped_without_spans_witness:
  "analyzeText literalEngine [word ''never''] True (Some readThrows) ''5 > 3 & true'' =
     Some (\<lparr>highlightedText = ''5 &gt; 3 &amp; true'',
            stats = \<lparr>total = 0, tension = 0, absolutism = 0, inversion = 0\<rparr>\<rparr>,
           [word ''never''])"
proof -
  have "map_option fst (findTensionPhrases [word ''never''] ''5 > 3 & true'') = Some []"
    by code_simp
  then obtain P' where f: "findTensionPhrases [word ''never''] ''5 > 3 & true'' = Some ([], P')"
    by auto
  from tensionLoop_leaves[OF f[unfolded findTensionPhrases_def]]
  have P': "P' = [word ''never'']" by (simp add: word_def)
  have d: "True \<and> Some readThrows \<noteq> None \<longrightarrow>
           detectAbsolutismsNLP literalEngine (Some readThrows) ''5 > 3 & true'' = Some [] \<and>
           detectInversionsNLP literalEngine (Some readThrows) ''5 > 3 & true'' = Some []"
    by (simp add: detectors_when_read_throws readThrows_def)
  from escaped_without_spans[OF f d] P' show ?thesis
    by (cases "analyzeText literalEngine [word ''never''] True (Some readThrows) ''5 > 3 & true''")
       (auto simp: analysisResult.equality)
qed


lemma tryBody_ends_normally: "tryBody eng P l nlp s \<noteq> Some (Inl f)"
  by (cases "detectAll eng P l nlp s") (auto simp: tryBody_def)




section \<open>Splicing\<close>

lemma substring_0: "substring s 0 b = take b s"
  by (simp add: substring_def Let_def min_def)

lemma substring_le:
  "a \<le> b \<Longrightarrow> b \<le> length s \<Longrightarrow> substring s a b = take (b - a) (drop a s)"
  by (simp add: substring_def Let_def min_def max_def)

lemma set_substring: "set (substring s a b) \<subseteq> set s"
  unfolding substring_def Let_def
  by (meson set_take_subset set_drop_subset subset_trans)

lemma replaceChar_append: "replaceChar c r (a @ b) = replaceChar c r a @ replaceChar c r b"
  by (simp add: replaceChar_def)

lemma replaceChar_absent: "c \<notin> set s \<Longrightarrow> replaceChar c r s = s"
  by (induction s) (auto simp: replaceChar_def)

lemma length_replaceChar: "r \<noteq> [] \<Longrightarrow> length s \<le> length (replaceChar c r s)"
proof (induction s)
  case Nil
  show ?case by (simp add: replaceChar_def)
next
  case (Cons x s)
  have "replaceChar c r (x # s) = (if x = c then r else [x]) @ replaceChar c r s"
    by (simp add: replaceChar_def)
  moreover have "1 \<le> length (if x = c then r else [x])"
    using Cons.prems by (cases r) simp_all
  ultimately show ?case using Cons by simp
qed

lemma length_escapeHtml: "length s \<le> length (escapeHtml s)"
proof -
  have "length s \<le> length (replaceChar (CHR ''&'') ''&amp;'' s)"
    by (rule length_replaceChar) simp
  also have "\<dots> \<le> length (replaceChar (CHR ''<'') ''&lt;'' (replaceChar (CHR ''&'') ''&amp;'' s))"
    by (rule length_replaceChar) simp
  also have "\<dots> \<le> length (escapeHtml s)"
    unfolding escapeHtml_def by (rule length_replaceChar) simp
  finally show ?thesis .
qed

lemma escapeHtml_plain:
  "CHR ''&'' \<notin> set s \<Longrightarrow> CHR ''<'' \<notin> set s \<Longrightarrow> CHR ''>'' \<notin> set s \<Longrightarrow> escapeHtml s = s"
  by (simp add: escapeHtml_def replaceChar_absent)

text \<open>Splicing from the last span to the first lays the wrappers out from left to
  right over the text that was there before the first splice.\<close>

lemma splice_from_end:
  assumes "sorted_wrt (\<lambda>a b. h_end a \<le> h_start b) ks"
    and "\<forall>k \<in> set ks. pos \<le> h_start k \<and> h_start k \<le> h_end k \<and> h_end k \<le> length t"
  shows "foldl applyHighlight t (rev ks) = take pos t @ annotateFrom (\<lambda>x. x) t pos ks"
  using assms
proof (induction ks arbitrary: pos)
  case Nil
  show ?case by (simp add: substringFrom_def)
next
  case (Cons k ks)
  let ?R = "annotateFrom (\<lambda>x. x) t (h_end k) ks"
  have b: "pos \<le> h_start k" "h_start k \<le> h_end k" "h_end k \<le> length t"
    using Cons.prems(2) by simp_all
  have "foldl applyHighlight t (rev ks) = take (h_end k) t @ ?R"
  proof (rule Cons.IH)
    show "sorted_wrt (\<lambda>a b. h_end a \<le> h_start b) ks" using Cons.prems(1) by simp
    show "\<forall>k' \<in> set ks. h_end k \<le> h_start k' \<and> h_start k' \<le> h_end k' \<and> h_end k' \<le> length t"
      using Cons.prems by simp
  qed
  then have "foldl applyHighlight t (rev (k # ks)) = applyHighlight (take (h_end k) t @ ?R) k"
    by simp
  also have "\<dots> = take (h_start k) t @ spanMarkup k @ ?R"
    using b by (simp add: applyHighlight_def substring_0 substringFrom_def min_def)
  also have "take (h_start k) t = take pos t @ substring t pos (h_start k)"
  proof -
    have "take (pos + (h_start k - pos)) t = take pos t @ take (h_start k - pos) (drop pos t)"
      by (rule take_add)
    with b show ?thesis by (simp add: substring_le)
  qed
  finally show ?case by simp
qed

lemma annotateFrom_holds:
  "k \<in> set ks \<Longrightarrow> \<exists>pre post. annotateFrom f t pos ks = pre @ spanMarkup k @ post"
proof (induction ks arbitrary: pos)
  case Nil
  then show ?case by simp
next
  case (Cons x ks)
  show ?case
  proof (cases "k = x")
    case True
    have "annotateFrom f t pos (x # ks) =
        f (substring t pos (h_start x)) @ spanMarkup k @ annotateFrom f t (h_end x) ks"
      using True by simp
    then show ?thesis by blast
  next
    case False
    with Cons.prems have "k \<in> set ks" by simp
    from Cons.IH[OF this, of "h_end x"] obtain pre post
      where "annotateFrom f t (h_end x) ks = pre @ spanMarkup k @ post" by blast
    then have "annotateFrom f t pos (x # ks) =
        (f (substring t pos (h_start x)) @ spanMarkup x @ pre) @ spanMarkup k @ post"
      by simp
    then show ?thesis by blast
  qed
qed

lemma annotateFrom_plain:
  assumes "CHR ''&'' \<notin> set s" "CHR ''<'' \<notin> set s" "CHR ''>'' \<notin> set s"
  shows "annotateFrom escapeHtml s pos ks = annotateFrom (\<lambda>x. x) s pos ks"
proof (induction ks arbitrary: pos)
  case Nil
  have "set (drop pos s) \<subseteq> set s" by (rule set_drop_subset)
  with assms show ?case by (auto simp: substringFrom_def intro!: escapeHtml_plain)
next
  case (Cons k ks)
  have "set (substring s pos (h_start k)) \<subseteq> set s" by (rule set_substring)
  with assms have "escapeHtml (substring s pos (h_start k)) = substring s pos (h_start k)"
    by (auto intro!: escapeHtml_plain)
  with Cons show ?case by simp
qed

text \<open>The spliced text in closed form, for spans that lie within the text.\<close>

lemma spliced_layout:
  assumes "\<forall>h \<in> set hs. h_start h < h_end h \<and> h_end h \<le> length t"
  shows "foldl applyHighlight t (filteredOf hs) =
     annotateFrom (\<lambda>x. x) t 0 (removeOverlaps [] (sort_cmp byStartAscending hs))"
proof -
  let ?K = "removeOverlaps [] (sort_cmp byStartAscending hs)"
  have sub: "set ?K \<subseteq> set hs"
    using set_removeOverlaps[of "[]" "sort_cmp byStartAscending hs"] by (simp add: set_sort_cmp)
  have chain: "sorted_wrt (\<lambda>a b. h_end a \<le> h_start b) ?K" by (rule kept_chain)
  have "sorted_wrt (\<lambda>a b. h_start a < h_start b) ?K"
  proof (rule sorted_wrt_mono_rel[OF _ chain])
    fix x y assume "x \<in> set ?K" "y \<in> set ?K" "h_end x \<le> h_start y"
    with sub assms show "h_start x < h_start y" by fastforce
  qed
  then have "filteredOf hs = rev ?K"
    unfolding filteredOf_def by (rule sort_descending_rev)
  moreover have "foldl applyHighlight t (rev ?K) = take 0 t @ annotateFrom (\<lambda>x. x) t 0 ?K"
  proof (rule splice_from_end[OF chain])
    show "\<forall>k \<in> set ?K. 0 \<le> h_start k \<and> h_start k \<le> h_end k \<and> h_end k \<le> length t"
      using sub assms by fastforce
  qed
  ultimately show ?thesis by simp
qed

lemma rendering_of_plain_text:
  assumes "CHR ''&'' \<notin> set s" "CHR ''<'' \<notin> set s" "CHR ''>'' \<notin> set s"
    and "\<forall>h \<in> set hs. withinText s h"
  shows "renderHighlights (escapeHtml s) hs = specRendering s hs"
proof -
  have e: "escapeHtml s = s" using assms(1-3) by (rule escapeHtml_plain)
  have "\<forall>h \<in> set hs. h_start h < h_end h \<and> h_end h \<le> length s"
    using assms(4) by (simp add: withinText_def)
  from spliced_layout[OF this] annotateFrom_plain[OF assms(1-3)]
  show ?thesis by (simp add: renderHighlights_def specRendering_def e)
qed

section \<open>What the splice writes\<close>

text \<open>
  C9: a kept span is spliced as the wrapper tag around its text as matched; the text
  goes through no escaping, only the final replacement of newlines. So the markup of
  the result holds the wrapper with the span's own characters, \<^verbatim>\<open>&\<close>, \<^verbatim>\<open><\<close> and
  \<^verbatim>\<open>>\<close> included, for spans that lie within the text.
\<close>

theorem span_text_spliced_verbatim:
  assumes "\<forall>h \<in> set (highlights v). withinText s h"
    and "k \<in> set (filteredOf (highlights v))"
  shows \<open>applyHighlight t k =
       substring t 0 (h_start k)
         @ ''<span class="'' @ h_class k @ ''">'' @ h_text k @ ''</span>''
         @ substringFrom t (h_end k)
    \<and> (\<exists>pre post. highlightedText (resultOf s v) =
          pre @ replaceNewlines (''<span class="'' @ h_class k @ ''">'' @ h_text k @ ''</span>'')
            @ post)
    \<and> (CHR 0x0A \<notin> set (h_class k) \<and> CHR 0x0A \<notin> set (h_text k) \<longrightarrow>
        (\<exists>pre post. highlightedText (resultOf s v) =
          pre @ ''<span class="'' @ h_class k @ ''">'' @ h_text k @ ''</span>'' @ post))\<close>
proof -
  let ?K = "removeOverlaps [] (sort_cmp byStartAscending (highlights v))"
  have 1: \<open>applyHighlight t k =
       substring t 0 (h_start k)
         @ ''<span class="'' @ h_class k @ ''">'' @ h_text k @ ''</span>''
         @ substringFrom t (h_end k)\<close>
    by (simp add: applyHighlight_def spanMarkup_def)
  have "\<forall>h \<in> set (highlights v). h_start h < h_end h \<and> h_end h \<le> length (escapeHtml s)"
    using assms(1) length_escapeHtml[of s] by (fastforce simp: withinText_def)
  then have lay: "foldl applyHighlight (escapeHtml s) (filteredOf (highlights v)) =
      annotateFrom (\<lambda>x. x) (escapeHtml s) 0 ?K"
    by (rule spliced_layout)
  from assms(2) have "k \<in> set ?K"
    by (simp add: filteredOf_def set_sort_cmp)
  from annotateFrom_holds[OF this] obtain pre post
    where "annotateFrom (\<lambda>x. x) (escapeHtml s) 0 ?K = pre @ spanMarkup k @ post"
    by blast
  with lay have "highlightedText (resultOf s v) =
      replaceNewlines pre @ replaceNewlines (spanMarkup k) @ replaceNewlines post"
    by (simp add: resultOf_def renderHighlights_def replaceNewlines_def replaceChar_append)
  then have 2: \<open>\<exists>pre post. highlightedText (resultOf s v) =
          pre @ replaceNewlines (''<span class="'' @ h_class k @ ''">'' @ h_text k @ ''</span>'')
            @ post\<close>
    unfolding spanMarkup_def by blast
  have \<open>replaceNewlines (''<span class="'' @ h_class k @ ''">'' @ h_text k @ ''</span>'') =
      ''<span class="'' @ h_class k @ ''">'' @ h_text k @ ''</span>''\<close>
    if "CHR 0x0A \<notin> set (h_class k)" "CHR 0x0A \<notin> set (h_text k)"
    unfolding replaceNewlines_def using that by (intro replaceChar_absent) simp
  with 2 have 3: \<open>CHR 0x0A \<notin> set (h_class k) \<and> CHR 0x0A \<notin> set (h_text k) \<longrightarrow>
        (\<exists>pre post. highlightedText (resultOf s v) =
          pre @ ''<span class="'' @ h_class k @ ''">'' @ h_text k @ ''</span>'' @ post)\<close>
    by (metis append.assoc)
  from 1 2 3 show ?thesis by blast
qed

lemma boldTag_detected:
  "map_option (highlights \<circ> fst) (detectAll literalEngine [word ''<b>''] False None ''a <b> c'')
     = Some [boldTag]"
  by code_simp

lemma boldTag_kept: "filteredOf [boldTag] = [boldTag]"
  by code_simp

theorem span_text_spliced_verbatim_witness:
  \<open>\<exists>v P'. detectAll literalEngine [word ''<b>''] False None ''a <b> c'' = Some (v, P')
    \<and> filteredOf (highlights v) = [boldTag]
    \<and> h_text boldTag = ''<b>''
    \<and> highlightedText (resultOf ''a <b> c'' v) =
        ''a <span class="highlight-tension"><b></span>;b&gt; c''
    \<and> (\<exists>pre post. highlightedText (resultOf ''a <b> c'' v) =
          pre @ ''<span class="'' @ ''highlight-tension'' @ ''">'' @ ''<b>'' @ ''</span>'' @ post)\<close>
proof -
  from boldTag_detected obtain v P'
    where d: "detectAll literalEngine [word ''<b>''] False None ''a <b> c'' = Some (v, P')"
      and h: "highlights v = [boldTag]"
    by auto
  have w: "\<forall>h \<in> set (highlights v). withinText ''a <b> c'' h"
    unfolding h by (simp add: withinText_def boldTag_def)
  have k: "boldTag \<in> set (filteredOf (highlights v))"
    unfolding h boldTag_kept by simp
  have f: "h_class boldTag = ''highlight-tension''" "h_text boldTag = ''<b>''"
    by (simp_all add: boldTag_def)
  have n: "CHR 0x0A \<notin> set (h_class boldTag) \<and> CHR 0x0A \<notin> set (h_text boldTag)"
    unfolding f by simp
  from span_text_spliced_verbatim[OF w k, of "[]"] n
  have e: \<open>\<exists>pre post. highlightedText (resultOf ''a <b> c'' v) =
          pre @ ''<span class="'' @ ''highlight-tension'' @ ''">'' @ ''<b>'' @ ''</span>'' @ post\<close>
    unfolding f by blast
  have m: \<open>highlightedText (resultOf ''a <b> c'' v) =
        ''a <span class="highlight-tension"><b></span>;b&gt; c''\<close>
    unfolding resultOf_def analysisResult.simps h by code_simp
  from d h boldTag_kept f(2) m e show ?thesis by auto
qed

text \<open>
  C4: the text \<^verbatim>\<open>Tom & Ann never lie\<close> with a ready tokenizer. The two detected spans
  are the word \<^verbatim>\<open>never\<close> at 10 to 15, without any markup character. The ampersand
  before them grows to five characters in the escaped text, and the splice at 10 to 15
  of the escaped text cuts \<^verbatim>\<open>Ann n\<close> out and leaves \<^verbatim>\<open>ever\<close> behind the wrapper. The
  rendering that wraps the matched text and escapes the rest is another string.
\<close>

theorem splice_after_escaped_character:
  \<open>map_option (highlights \<circ> fst) (detectAll literalEngine [] True (Some readTomAnn) tomAnn) =
      Some [neverAbsolutism, neverInversion]
   \<and> map h_text [neverAbsolutism, neverInversion] = [''never'', ''never'']
   \<and> map_option (highlightedText \<circ> fst)
        (analyzeText literalEngine [] True (Some readTomAnn) tomAnn) =
      Some ''Tom &amp; <span class="highlight-absolutism">never</span>ever lie''
   \<and> specRendering tomAnn [neverAbsolutism, neverInversion] =
      ''Tom &amp; Ann <span class="highlight-absolutism">never</span> lie''\<close>
proof -
  have 1: "map_option (highlights \<circ> fst)
      (detectAll literalEngine [] True (Some readTomAnn) tomAnn) =
      Some [neverAbsolutism, neverInversion]"
    by code_simp
  have 2: "map h_text [neverAbsolutism, neverInversion] = [''never'', ''never'']"
    by (simp add: neverAbsolutism_def neverInversion_def)
  have 3: \<open>map_option (highlightedText \<circ> fst)
        (analyzeText literalEngine [] True (Some readTomAnn) tomAnn) =
      Some ''Tom &amp; <span class="highlight-absolutism">never</span>ever lie''\<close>
    by code_simp
  have 4: \<open>specRendering tomAnn [neverAbsolutism, neverInversion] =
      ''Tom &amp; Ann <span class="highlight-absolutism">never</span> lie''\<close>
    by code_simp
  from 1 2 3 4 show ?thesis by blast
qed

section \<open>One token, two detectors\<close>

lemma absolute_word_of_never:
  assumes "toLowerCase (t_out tok) = ''never''"
  shows "\<lparr>d_text = t_out tok, d_start = t_offset tok, d_type = ''absolute_word''\<rparr>
           \<in> set (absolutismsOfToken tok)"
  using assms by (simp add: absolutismsOfToken_def Let_def absoluteWords_def)

lemma negation_of_never:
  assumes "toLowerCase (t_lemma tok) = ''never''"
  shows "\<lparr>d_text = t_out tok, d_start = t_offset tok, d_type = ''negation''\<rparr>
           \<in> set (inversionsOfToken tok)"
  using assms by (simp add: inversionsOfToken_def Let_def)

lemma detectAbsolutismsNLP_tokens:
  assumes "readDoc s = Inr doc" and "detectAbsolutismsNLP eng (Some readDoc) s = Some A"
    and "tok \<in> set (tokens doc)"
  shows "set (absolutismsOfToken tok) \<subseteq> set A"
proof -
  from assms(1,2) have "sentencesLoop eng absolutePatterns (sentences doc)
      (concat (map absolutismsOfToken (tokens doc))) = Some A"
    by (simp add: detectAbsolutismsNLP_def)
  from sentencesLoop_keeps[OF this] assms(3) show ?thesis by auto
qed

lemma detectInversionsNLP_tokens:
  assumes "readDoc s = Inr doc" and "detectInversionsNLP eng (Some readDoc) s = Some I"
    and "tok \<in> set (tokens doc)"
  shows "set (inversionsOfToken tok) \<subseteq> set I"
proof -
  from assms(1,2) have "sentencesLoop eng inversionPatterns (sentences doc)
      (concat (map inversionsOfToken (tokens doc))) = Some I"
    by (simp add: detectInversionsNLP_def)
  from sentencesLoop_keeps[OF this] assms(3) show ?thesis by auto
qed

text \<open>
  C10: the tokenizer gives the word \<^verbatim>\<open>never\<close> the lemma \<^verbatim>\<open>never\<close>. Then every token
  whose lowercase form is \<^verbatim>\<open>never\<close> gives an absolutism span (\<^verbatim>\<open>absolute_word\<close>) and an
  inversion span (\<^verbatim>\<open>negation\<close>) with the same start and the same end. Both are counted,
  each in its own category, and at most one span with these offsets is left after the
  overlap filter.
\<close>

theorem never_token_counted_twice:
  assumes "readDoc s = Inr doc" and "neverIsItsLemma doc"
    and "tok \<in> set (tokens doc)" and "toLowerCase (t_out tok) = ''never''"
    and "trim s \<noteq> []"
    and "analyzeText eng P True (Some readDoc) s = Some (r, P')"
  shows "\<exists>A I v.
      detectAbsolutismsNLP eng (Some readDoc) s = Some A
    \<and> detectInversionsNLP eng (Some readDoc) s = Some I
    \<and> \<lparr>d_text = t_out tok, d_start = t_offset tok, d_type = ''absolute_word''\<rparr> \<in> set A
    \<and> \<lparr>d_text = t_out tok, d_start = t_offset tok, d_type = ''negation''\<rparr> \<in> set I
    \<and> absolutism (stats r) = length A \<and> 1 \<le> absolutism (stats r)
    \<and> inversion (stats r) = length I \<and> 1 \<le> inversion (stats r)
    \<and> detectAll eng P True (Some readDoc) s = Some (v, P') \<and> r = resultOf s v
    \<and> absolutismHighlight
          \<lparr>d_text = t_out tok, d_start = t_offset tok, d_type = ''absolute_word''\<rparr>
        \<in> set (highlights v)
    \<and> inversionHighlight \<lparr>d_text = t_out tok, d_start = t_offset tok, d_type = ''negation''\<rparr>
        \<in> set (highlights v)
    \<and> h_start (absolutismHighlight
          \<lparr>d_text = t_out tok, d_start = t_offset tok, d_type = ''absolute_word''\<rparr>)
        = t_offset tok
    \<and> h_start (inversionHighlight
          \<lparr>d_text = t_out tok, d_start = t_offset tok, d_type = ''negation''\<rparr>)
        = t_offset tok
    \<and> h_end (absolutismHighlight
          \<lparr>d_text = t_out tok, d_start = t_offset tok, d_type = ''absolute_word''\<rparr>)
        = t_offset tok + 5
    \<and> h_end (inversionHighlight
          \<lparr>d_text = t_out tok, d_start = t_offset tok, d_type = ''negation''\<rparr>)
        = t_offset tok + 5
    \<and> length (filter (\<lambda>h. h_start h = t_offset tok \<and> h_end h = t_offset tok + 5)
                (filteredOf (highlights v))) \<le> 1"
proof -
  let ?a = "\<lparr>d_text = t_out tok, d_start = t_offset tok, d_type = ''absolute_word''\<rparr>"
  let ?i = "\<lparr>d_text = t_out tok, d_start = t_offset tok, d_type = ''negation''\<rparr>"
  from assms(2,3,4) have lem: "toLowerCase (t_lemma tok) = ''never''"
    by (simp add: neverIsItsLemma_def list_all_iff)
  from analyzeText_Some[OF assms(5,6)] obtain v
    where d: "detectAll eng P True (Some readDoc) s = Some (v, P')" and r: "r = resultOf s v"
    by blast
  from d obtain T A I where
    A: "detectAbsolutismsNLP eng (Some readDoc) s = Some A"
    and I: "detectInversionsNLP eng (Some readDoc) s = Some I"
    and h: "highlights v =
        map tensionHighlight T @ map absolutismHighlight A @ map inversionHighlight I"
    and c: "absolutismCount v = length A" "inversionCount v = length I"
    by (rule detectAll_Some) simp
  have a: "?a \<in> set A"
    using detectAbsolutismsNLP_tokens[OF assms(1) A assms(3)]
      absolute_word_of_never[OF assms(4)] by blast
  have i: "?i \<in> set I"
    using detectInversionsNLP_tokens[OF assms(1) I assms(3)]
      negation_of_never[OF lem] by blast
  have len: "length (t_out tok) = 5"
  proof -
    have "length (toLowerCase (t_out tok)) = length (t_out tok)"
      by (simp add: toLowerCase_def)
    with assms(4) show ?thesis by simp
  qed
  have one: "length (filter (\<lambda>h. h_start h = t_offset tok \<and> h_end h = t_offset tok + 5)
                (filteredOf (highlights v))) \<le> 1"
    by (rule filter_at_most_one[OF filtered_apart]) (simp add: apart_def)
  have la: "1 \<le> length A" using a by (cases A) simp_all
  have li: "1 \<le> length I" using i by (cases I) simp_all
  have ha: "absolutismHighlight ?a \<in> set (highlights v)" using a by (simp add: h)
  have hi: "inversionHighlight ?i \<in> set (highlights v)" using i by (simp add: h)
  have cs: "absolutism (stats r) = length A" "inversion (stats r) = length I"
    using c by (simp_all add: r resultOf_def)
  have off: "h_start (absolutismHighlight ?a) = t_offset tok"
    "h_start (inversionHighlight ?i) = t_offset tok"
    "h_end (absolutismHighlight ?a) = t_offset tok + 5"
    "h_end (inversionHighlight ?i) = t_offset tok + 5"
    by (simp_all add: absolutismHighlight_def inversionHighlight_def len)
  from A I a i cs la li d r ha hi off one show ?thesis
    by (intro exI[of _ A] exI[of _ I] exI[of _ v]) simp
qed

lemma heNever_plain_analysis:
  \<open>map_option fst (analyzeText literalEngine [] True (Some readHeNever) heNever) =
   Some \<lparr>highlightedText = ''He <span class="highlight-absolutism">never</span> lies'',
         stats = \<lparr>total = 1, tension = 0, absolutism = 1, inversion = 1\<rparr>\<rparr>\<close>
  by code_simp

theorem never_token_counted_twice_witness:
  \<open>\<exists>P'. analyzeText literalEngine [] True (Some readHeNever) heNever =
      Some (\<lparr>highlightedText = ''He <span class="highlight-absolutism">never</span> lies'',
             stats = \<lparr>total = 1, tension = 0, absolutism = 1, inversion = 1\<rparr>\<rparr>, P')
    \<and> detectAbsolutismsNLP literalEngine (Some readHeNever) heNever =
        Some [\<lparr>d_text = ''never'', d_start = 3, d_type = ''absolute_word''\<rparr>]
    \<and> detectInversionsNLP literalEngine (Some readHeNever) heNever =
        Some [\<lparr>d_text = ''never'', d_start = 3, d_type = ''negation''\<rparr>]
    \<and> (\<exists>v. detectAll literalEngine [] True (Some readHeNever) heNever = Some (v, P')
          \<and> length (filter (\<lambda>h. h_start h = 3 \<and> h_end h = 3 + 5)
                (filteredOf (highlights v))) \<le> 1)\<close>
proof -
  let ?tok = "\<lparr>t_out = ''never'', t_lemma = ''never'', t_pos = ''RB'', t_offset = 3\<rparr>"
  from heNever_plain_analysis obtain P' where
    h: \<open>analyzeText literalEngine [] True (Some readHeNever) heNever =
      Some (\<lparr>highlightedText = ''He <span class="highlight-absolutism">never</span> lies'',
             stats = \<lparr>total = 1, tension = 0, absolutism = 1, inversion = 1\<rparr>\<rparr>, P')\<close>
    by auto
  have rd: "readHeNever heNever = Inr heNeverDoc" by (simp add: readHeNever_def)
  have tk: "?tok \<in> set (tokens heNeverDoc)" by (simp add: heNeverDoc_def)
  have lo: "toLowerCase (t_out ?tok) = ''never''" by code_simp
  have nl: "neverIsItsLemma heNeverDoc" by code_simp
  have da: "detectAbsolutismsNLP literalEngine (Some readHeNever) heNever =
        Some [\<lparr>d_text = ''never'', d_start = 3, d_type = ''absolute_word''\<rparr>]"
    by code_simp
  have di: "detectInversionsNLP literalEngine (Some readHeNever) heNever =
        Some [\<lparr>d_text = ''never'', d_start = 3, d_type = ''negation''\<rparr>]"
    by code_simp
  from never_token_counted_twice[OF rd nl tk lo heNever_not_blank h]
  obtain v where "detectAll literalEngine [] True (Some readHeNever) heNever = Some (v, P')"
    and "length (filter (\<lambda>h. h_start h = 3 \<and> h_end h = 3 + 5)
                (filteredOf (highlights v))) \<le> 1"
    by auto
  with h da di show ?thesis by blast
qed

end
